theory Spec2Isabelle
  imports Complex_Main "HOL-Library.AList" "HOL-Library.Multiset"
begin

section \<open>JavaScript strings\<close>

text \<open>
  A JavaScript string is a sequence of UTF-16 code units. Each unit is modelled by its
  number (below 65536), so that \<open>length\<close> is the \<open>.length\<close> of the source and the rupee
  sign is the single unit 0x20B9. \<open>str\<close> writes an ASCII literal.
\<close>

type_synonym jsstring = "nat list"

definition str :: "string \<Rightarrow> jsstring" where
  "str s = map of_char s"

section \<open>Dates\<close>

text \<open>
  A \<open>Date\<close> holds a time value: an integral number of milliseconds since
  1970-01-01T00:00:00Z. The functions below are the abstract operations of the
  ECMAScript specification that \<open>getFullYear\<close>, \<open>getDay\<close> and the
  \<open>Date(year, month, day)\<close> constructor are defined by. Local time is the time value
  plus the zone offset \<open>tz\<close> (milliseconds east of UTC), taken to be constant over the
  days a run looks at. Time values are unbounded integers here: the limit of the
  \<open>Date\<close> range, 8.64e15 ms either side of the epoch, is not part of the model.
\<close>

definition msPerDay :: int where
  "msPerDay = 86400000"

definition Day :: "int \<Rightarrow> int" where
  "Day t = t div msPerDay"

definition DayFromYear :: "int \<Rightarrow> int" where
  "DayFromYear y =
     365 * (y - 1970) + (y - 1969) div 4 - (y - 1901) div 100 + (y - 1601) div 400"

definition DaysInYear :: "int \<Rightarrow> int" where
  "DaysInYear y =
     (if y mod 4 \<noteq> 0 then 365
      else if y mod 100 \<noteq> 0 then 366
      else if y mod 400 \<noteq> 0 then 365
      else 366)"

lemma int_div_step:
  fixes a n :: int
  assumes "0 < n"
  shows "(a + 1) div n = (if (a + 1) mod n = 0 then a div n + 1 else a div n)"
proof (cases "(a + 1) mod n = 0")
  case True
  have "a + 1 = n * ((a + 1) div n)"
    using True by (metis add.right_neutral mult_div_mod_eq)
  then have "a = n * ((a + 1) div n - 1) + (n - 1)"
    by (simp add: algebra_simps)
  then have "a div n = (a + 1) div n - 1"
    using assms by (intro int_div_pos_eq [where r = "n - 1"]) auto
  with True show ?thesis by simp
next
  case False
  have r: "0 \<le> (a + 1) mod n" "(a + 1) mod n < n"
    using assms by simp_all
  have "a + 1 = n * ((a + 1) div n) + (a + 1) mod n"
    by simp
  then have "a = n * ((a + 1) div n) + ((a + 1) mod n - 1)"
    by linarith
  then have "a div n = (a + 1) div n"
    using assms r False by (intro int_div_pos_eq [where r = "(a + 1) mod n - 1"]) auto
  with False show ?thesis by simp
qed

lemma mod_shift_zero:
  fixes y c k :: int
  assumes "k dvd c"
  shows "(y - c) mod k = 0 \<longleftrightarrow> y mod k = 0"
  using assms by (simp add: mod_eq_0_iff_dvd dvd_diff_left_iff)

lemma DayFromYear_Suc: "DayFromYear (y + 1) = DayFromYear y + DaysInYear y"
proof -
  have a: "(y - 1968) div 4 = (y - 1969) div 4 + (if y mod 4 = 0 then 1 else 0)"
    using int_div_step [of 4 "y - 1969"] mod_shift_zero [of 4 1968 y]
    by (simp add: algebra_simps)
  have b: "(y - 1900) div 100 = (y - 1901) div 100 + (if y mod 100 = 0 then 1 else 0)"
    using int_div_step [of 100 "y - 1901"] mod_shift_zero [of 100 1900 y]
    by (simp add: algebra_simps)
  have c: "(y - 1600) div 400 = (y - 1601) div 400 + (if y mod 400 = 0 then 1 else 0)"
    using int_div_step [of 400 "y - 1601"] mod_shift_zero [of 400 1600 y]
    by (simp add: algebra_simps)
  have d: "y mod 400 = 0 \<Longrightarrow> y mod 100 = 0" "y mod 100 = 0 \<Longrightarrow> y mod 4 = 0"
    by (auto simp: mod_eq_0_iff_dvd elim: dvd_trans [rotated])
  show ?thesis
    unfolding DayFromYear_def DaysInYear_def using d by (simp add: a b c)
qed

lemma DaysInYear_bounds: "365 \<le> DaysInYear y" "DaysInYear y \<le> 366"
  by (simp_all add: DaysInYear_def)

lemma DayFromYear_less: "DayFromYear y < DayFromYear (y + 1)"
  using DaysInYear_bounds(1) [of y] by (simp add: DayFromYear_Suc)

text \<open>
  \<open>YearFromTime t\<close> is the largest year whose first day is not after \<open>t\<close>. It is
  computed by walking up from a year that is certainly not too late.
\<close>

function year_search :: "int \<Rightarrow> int \<Rightarrow> int" where
  "year_search y d = (if DayFromYear (y + 1) \<le> d then year_search (y + 1) d else y)"
  by pat_completeness auto
termination
proof (relation "measure (\<lambda>(y, d). nat (d + 1 - DayFromYear (y + 1)))")
  show "wf (measure (\<lambda>(y, d). nat (d + 1 - DayFromYear (y + 1))))"
    by simp
next
  fix y d :: int
  assume "DayFromYear (y + 1) \<le> d"
  then show "((y + 1, d), (y, d)) \<in> measure (\<lambda>(y, d). nat (d + 1 - DayFromYear (y + 1)))"
    using DayFromYear_less [of "y + 1"] by simp
qed

declare year_search.simps [simp del]

definition year_guess :: "int \<Rightarrow> int" where
  "year_guess d = 1970 + (if 0 \<le> d then d div 366 else d div 365 - 1)"

definition YearFromTime :: "int \<Rightarrow> int" where
  "YearFromTime t = year_search (year_guess (Day t)) (Day t)"

definition WeekDay :: "int \<Rightarrow> int" where
  \<comment> \<open>0 is Sunday, 1 is Monday; 1970-01-01 was a Thursday.\<close>
  "WeekDay t = (Day t + 4) mod 7"

definition monthStart :: "int \<Rightarrow> int \<Rightarrow> int" where
  \<comment> \<open>The day within year \<open>y\<close> on which month \<open>m\<close> (0 is January) begins.\<close>
  "monthStart y m =
     [0, 31, 59, 90, 120, 151, 181, 212, 243, 273, 304, 334] ! nat m
       + (if 2 \<le> m \<and> DaysInYear y = 366 then 1 else 0)"

definition MakeDay :: "int \<Rightarrow> int \<Rightarrow> int \<Rightarrow> int" where
  "MakeDay year month date =
     (let ym = year + month div 12; mn = month mod 12
      in DayFromYear ym + monthStart ym mn + date - 1)"

definition MakeTime :: "int \<Rightarrow> int \<Rightarrow> int \<Rightarrow> int \<Rightarrow> int" where
  "MakeTime hour minute sec ms = hour * 3600000 + minute * 60000 + sec * 1000 + ms"

definition MakeDate :: "int \<Rightarrow> int \<Rightarrow> int" where
  "MakeDate day time = day * msPerDay + time"

definition LocalTime :: "int \<Rightarrow> int \<Rightarrow> int" where
  "LocalTime tz t = t + tz"

definition UTC :: "int \<Rightarrow> int \<Rightarrow> int" where
  "UTC tz t = t - tz"

definition getFullYear :: "int \<Rightarrow> int \<Rightarrow> int" where
  "getFullYear tz d = YearFromTime (LocalTime tz d)"

definition getDay :: "int \<Rightarrow> int \<Rightarrow> int" where
  "getDay tz d = WeekDay (LocalTime tz d)"

definition newDate :: "int \<Rightarrow> int \<Rightarrow> int \<Rightarrow> int \<Rightarrow> int" where
  \<comment> \<open>\<open>new Date(year, month, date)\<close>: local midnight of that day. The constructor reads a
      year from 0 to 99 as 1900 + year.\<close>
  "newDate tz year month date =
     (let yr = (if 0 \<le> year \<and> year \<le> 99 then 1900 + year else year)
      in UTC tz (MakeDate (MakeDay yr month date) (MakeTime 0 0 0 0)))"

text \<open>
  \<open>new Date(string)\<close> is the runtime's parser, and ECMAScript fixes its result only for
  the ISO forms. The function under study therefore takes the parser as an argument
  (\<open>None\<close> stands for an Invalid Date). \<open>Date_parse\<close> is one such parser, used in
  the examples: it reads the date-only form \<open>YYYY-MM-DD\<close> that the command line
  documents, which denotes midnight UTC of that day, and gives \<open>None\<close> on every other
  string. That is what the runtime does on the empty string; the forms that ECMAScript
  leaves to the implementation are not modelled.
\<close>

definition is_digit :: "nat \<Rightarrow> bool" where
  "is_digit c = (48 \<le> c \<and> c \<le> 57)"

definition digits_value :: "jsstring \<Rightarrow> nat" where
  "digits_value ds = foldl (\<lambda>acc c. 10 * acc + (c - 48)) 0 ds"

definition DaysInMonth :: "int \<Rightarrow> int \<Rightarrow> int" where
  "DaysInMonth y m =
     (if m = 1 then (if DaysInYear y = 366 then 29 else 28)
      else if m \<in> {3, 5, 8, 10} then 30 else 31)"

definition Date_parse :: "jsstring \<Rightarrow> int option" where
  "Date_parse s =
     (if length s = 10 \<and> s ! 4 = 45 \<and> s ! 7 = 45
         \<and> list_all is_digit (take 4 s @ take 2 (drop 5 s) @ drop 8 s)
      then (let y = int (digits_value (take 4 s));
                m = int (digits_value (take 2 (drop 5 s)));
                d = int (digits_value (drop 8 s))
            in if 1 \<le> m \<and> m \<le> 12 \<and> 1 \<le> d \<and> d \<le> DaysInMonth y (m - 1)
               then Some (MakeDate (MakeDay y (m - 1) d) 0)
               else None)
      else None)"

section \<open>The stay window\<close>

text \<open>
  \<open>withinThisYearFiveNights\<close> throws one of three errors, told apart by their
  messages.
\<close>

datatype date_error =
    InvalidCheckin
  | CheckinNotInFuture
  | CheckinNotThisYear int

text \<open>The auto-pick branch, one definition for each variable of the source.\<close>

definition earliest :: "int \<Rightarrow> int" where
  "earliest now = now + 14 * msPerDay"

definition daysUntilMon :: "int \<Rightarrow> int \<Rightarrow> int" where
  "daysUntilMon tz now = (1 - getDay tz (earliest now) + 7) mod 7"

definition mondayStart :: "int \<Rightarrow> int \<Rightarrow> int" where
  \<comment> \<open>\<open>inDate\<close> as first assigned: the Monday on or after \<open>earliest\<close>.\<close>
  "mondayStart tz now = earliest now + daysUntilMon tz now * msPerDay"

definition usesFallback :: "int \<Rightarrow> int \<Rightarrow> bool" where
  \<comment> \<open>The test that replaces \<open>inDate\<close> by December 10.\<close>
  "usesFallback tz now \<longleftrightarrow> getFullYear tz (mondayStart tz now) \<noteq> getFullYear tz now"

definition pickedIn :: "int \<Rightarrow> int \<Rightarrow> int" where
  "pickedIn tz now =
     (if usesFallback tz now then newDate tz (getFullYear tz now) 11 10
      else mondayStart tz now)"

definition pickedOut :: "int \<Rightarrow> int \<Rightarrow> int" where
  "pickedOut tz now = pickedIn tz now + 5 * msPerDay"

definition lastDay :: "int \<Rightarrow> int \<Rightarrow> int" where
  "lastDay tz now = newDate tz (getFullYear tz now) 11 31"

definition shiftApplies :: "int \<Rightarrow> int \<Rightarrow> bool" where
  \<comment> \<open>The test \<open>outDate > lastDay\<close> that guards the backward shift.\<close>
  "shiftApplies tz now \<longleftrightarrow> lastDay tz now < pickedOut tz now"

definition shiftDays :: "int \<Rightarrow> int \<Rightarrow> int" where
  \<comment> \<open>\<open>Math.ceil((outDate - lastDay) / 86400000)\<close>; the difference is a whole number
      of milliseconds well inside the range where the division is exact enough for
      \<open>ceil\<close> to be the integer ceiling.\<close>
  "shiftDays tz now = - ((lastDay tz now - pickedOut tz now) div msPerDay)"

definition autoPick :: "int \<Rightarrow> int \<Rightarrow> int \<times> int" where
  "autoPick tz now =
     (if shiftApplies tz now
      then (pickedIn tz now - shiftDays tz now * msPerDay,
            pickedOut tz now - shiftDays tz now * msPerDay)
      else (pickedIn tz now, pickedOut tz now))"

text \<open>
  The argument \<open>checkinStr\<close> is \<open>None\<close> when the option is absent (\<open>undefined\<close>). The
  test \<open>if (checkinStr)\<close> is a truthiness test, so the empty string takes the auto-pick
  branch as well. The source builds \<open>outDate\<close> before its three checks; the value is
  the same.
\<close>

fun withinThisYearFiveNights ::
  "int \<Rightarrow> (jsstring \<Rightarrow> int option) \<Rightarrow> int \<Rightarrow> jsstring option \<Rightarrow> date_error + int \<times> int"
where
  "withinThisYearFiveNights tz parse now None = Inr (autoPick tz now)"
| "withinThisYearFiveNights tz parse now (Some checkinStr) =
     (if checkinStr = [] then Inr (autoPick tz now)
      else (case parse checkinStr of
              None \<Rightarrow> Inl InvalidCheckin
            | Some inDate \<Rightarrow>
                if inDate \<le> now then Inl CheckinNotInFuture
                else if getFullYear tz inDate \<noteq> getFullYear tz now
                  then Inl (CheckinNotThisYear (getFullYear tz now))
                else Inr (inDate, inDate + 5 * msPerDay)))"

section \<open>Reading a price out of a text\<close>

text \<open>
  \<open>is_space\<close> is the class \<open>\s\<close> of regular expressions, which is also what
  \<open>trim\<close> strips: the white space and line terminator code points of ECMAScript.
\<close>

definition is_space :: "nat \<Rightarrow> bool" where
  "is_space c \<longleftrightarrow>
     c \<in> {9, 10, 11, 12, 13, 32, 160, 5760, 8232, 8233, 8239, 8287, 12288, 65279}
     \<or> (8192 \<le> c \<and> c \<le> 8202)"

definition trim :: "jsstring \<Rightarrow> jsstring" where
  "trim s = rev (dropWhile is_space (rev (dropWhile is_space s)))"

text \<open>
  The pattern of \<open>parseCurrencyPrice\<close> is
  \<^verbatim>\<open>/([R$EPY]|USD|EUR|GBP|JPY|INR)\s*([0-9][0-9,\.]*)/i\<close>
  where the class written \<^verbatim>\<open>[R$EPY]\<close> here holds the rupee sign (0x20B9), the dollar
  sign, the euro sign (0x20AC), the pound sign (0xA3) and the yen sign (0xA5).
  Under the \<open>i\<close> flag a letter of the pattern matches itself and its lower-case form;
  no code unit above 127 is folded onto an ASCII letter, and the five symbols have no
  case variants.
\<close>

definition currency_symbols :: "nat list" where
  "currency_symbols = [8377, 36, 8364, 163, 165]"

definition currency_codes :: "jsstring list" where
  "currency_codes = [str ''USD'', str ''EUR'', str ''GBP'', str ''JPY'', str ''INR'']"

definition ci_match :: "nat \<Rightarrow> nat \<Rightarrow> bool" where
  \<comment> \<open>code unit \<open>c\<close> against the upper-case pattern letter \<open>p\<close>\<close>
  "ci_match c p \<longleftrightarrow> c = p \<or> c = p + 32"

definition match_code :: "jsstring \<Rightarrow> jsstring \<Rightarrow> bool" where
  "match_code code s \<longleftrightarrow>
     length code \<le> length s \<and> list_all2 ci_match (take (length code) s) code"

definition currency_at :: "jsstring \<Rightarrow> jsstring option" where
  \<comment> \<open>The first group, tried at the start of \<open>s\<close>: the alternatives in their order.\<close>
  "currency_at s =
     (case s of
        [] \<Rightarrow> None
      | c # _ \<Rightarrow>
          if c \<in> set currency_symbols then Some [c]
          else (case find (\<lambda>code. match_code code s) currency_codes of
                  Some code \<Rightarrow> Some (take (length code) s)
                | None \<Rightarrow> None))"

definition is_number_char :: "nat \<Rightarrow> bool" where
  \<comment> \<open>the class \<^verbatim>\<open>[0-9,\.]\<close>\<close>
  "is_number_char c \<longleftrightarrow> is_digit c \<or> c = 44 \<or> c = 46"

definition match_at :: "jsstring \<Rightarrow> (jsstring \<times> jsstring) option" where
  \<comment> \<open>The whole pattern tried at the start of \<open>s\<close>; the two groups of a match. White
      space and digits are disjoint, so the greedy \<open>\s*\<close> never has to give back.\<close>
  "match_at s =
     (case currency_at s of
        None \<Rightarrow> None
      | Some cur \<Rightarrow>
          (case dropWhile is_space (drop (length cur) s) of
             [] \<Rightarrow> None
           | d # ds \<Rightarrow>
               if is_digit d then Some (cur, d # takeWhile is_number_char ds) else None))"

fun regex_match :: "jsstring \<Rightarrow> (jsstring \<times> jsstring) option" where
  \<comment> \<open>\<open>text.match(re)\<close> without the \<open>g\<close> flag: the match at the leftmost position
      that has one.\<close>
  "regex_match [] = match_at []"
| "regex_match (c # cs) =
     (case match_at (c # cs) of
        Some m \<Rightarrow> Some m
      | None \<Rightarrow> regex_match cs)"

text \<open>
  \<open>parseFloat\<close> reads the longest prefix of its argument that is a decimal literal.
  The argument here is the second group with its commas removed: it begins with a digit
  and holds digits and dots only, so the prefix is the leading digits, then, if a dot
  follows, the dot and the digits after it. Sign, exponent, \<open>Infinity\<close> and the
  \<open>NaN\<close> of a string without a leading number cannot occur. The result is a double;
  the rational number returned here is the exact decimal it is rounded from (a token of
  more than some 300 digits, which a double holds as \<open>Infinity\<close>, is outside the model).
\<close>

definition parseFloat :: "jsstring \<Rightarrow> rat" where
  "parseFloat s =
     (let whole = of_nat (digits_value (takeWhile is_digit s))
      in case dropWhile is_digit s of
           [] \<Rightarrow> whole
         | c # r \<Rightarrow>
             if c = 46
             then (let frac = takeWhile is_digit r
                   in whole + of_nat (digits_value frac) / 10 ^ length frac)
             else whole)"

definition parseCurrencyPrice :: "jsstring \<Rightarrow> (jsstring \<times> rat) option" where
  \<comment> \<open>the object \<open>{currency, value}\<close> as a pair; \<open>None\<close> is \<open>null\<close>\<close>
  "parseCurrencyPrice text =
     (case regex_match text of
        None \<Rightarrow> None
      | Some (m1, m2) \<Rightarrow> Some (m1, parseFloat (filter (\<lambda>c. c \<noteq> 44) m2)))"

section \<open>Naming the provider of a row\<close>

text \<open>
  The provider name is worked out inside the loop over the rows. \<open>toLowerCase\<close> is the
  runtime's Unicode lower-casing; it is passed in as \<open>lc\<close>, and \<open>ascii_lower\<close> is what
  it does on strings of ASCII units.
\<close>

definition brands :: "jsstring list" where
  "brands =
     [str ''Google'', str ''Booking.com'', str ''Expedia'', str ''Agoda'', str ''Hotels.com'',
      str ''MakeMyTrip'', str ''Trip.com'', str ''Priceline'', str ''Travelocity'',
      str ''Cleartrip'', str ''Goibibo'', str ''Easemytrip'']"

definition ascii_lower :: "jsstring \<Rightarrow> jsstring" where
  "ascii_lower s = map (\<lambda>c. if 65 \<le> c \<and> c \<le> 90 then c + 32 else c) s"

fun startsWith :: "jsstring \<Rightarrow> jsstring \<Rightarrow> bool" where
  \<comment> \<open>\<open>needle\<close> stands at the front of \<open>hay\<close>\<close>
  "startsWith [] hay \<longleftrightarrow> True"
| "startsWith (n # ns) [] \<longleftrightarrow> False"
| "startsWith (n # ns) (h # hs) \<longleftrightarrow> n = h \<and> startsWith ns hs"

fun includesStr :: "jsstring \<Rightarrow> jsstring \<Rightarrow> bool" where
  \<comment> \<open>\<open>hay.includes(needle)\<close>: the needle stands at some position of the hay\<close>
  "includesStr [] needle \<longleftrightarrow> needle = []"
| "includesStr (c # cs) needle \<longleftrightarrow> startsWith needle (c # cs) \<or> includesStr cs needle"

definition firstLine :: "jsstring \<Rightarrow> jsstring" where
  \<comment> \<open>\<open>text.split("\n")[0]\<close>\<close>
  "firstLine text = takeWhile (\<lambda>c. c \<noteq> 10) text"

definition brandIn :: "(jsstring \<Rightarrow> jsstring) \<Rightarrow> jsstring \<Rightarrow> jsstring option" where
  \<comment> \<open>the \<open>for\<close> loop over the brands, left at the first brand the text mentions\<close>
  "brandIn lc text = find (\<lambda>brand. includesStr (lc text) (lc brand)) brands"

definition providerName :: "(jsstring \<Rightarrow> jsstring) \<Rightarrow> jsstring \<Rightarrow> jsstring" where
  \<comment> \<open>the variable \<open>providerName\<close> when the row is pushed\<close>
  "providerName lc text =
     (let firstName = trim (firstLine text)
      in if firstName = [] \<or> 60 < length firstName
         then (case brandIn lc text of Some brand \<Rightarrow> brand | None \<Rightarrow> firstName)
         else firstName)"

definition resolveProvider :: "(jsstring \<Rightarrow> jsstring) \<Rightarrow> jsstring \<Rightarrow> jsstring" where
  \<comment> \<open>the field stored by the push: \<open>providerName || "Unknown"\<close>\<close>
  "resolveProvider lc text =
     (if providerName lc text = [] then str ''Unknown'' else providerName lc text)"

definition longRow :: jsstring where
  \<comment> \<open>a row of one line, 69 units long, that names no brand\<close>
  "longRow = str ''Deluxe King Room with breakfast, free cancellation, from $120 a night''"

text \<open>
  What the pattern of \<open>parseCurrencyPrice\<close> accepts, said without reference to how
  the match is searched: somewhere in the text a currency (one of the five symbols, or
  one of the five codes in any mix of cases) is followed by white space, possibly none,
  and then a digit.
\<close>

definition is_currency :: "jsstring \<Rightarrow> bool" where
  "is_currency cur \<longleftrightarrow>
     (\<exists>c \<in> set currency_symbols. cur = [c])
     \<or> (\<exists>code \<in> set currency_codes. list_all2 ci_match cur code)"

definition has_price :: "jsstring \<Rightarrow> bool" where
  "has_price text \<longleftrightarrow>
     (\<exists>pre cur ws d rest.
        text = pre @ cur @ ws @ d # rest
        \<and> is_currency cur \<and> list_all is_space ws \<and> is_digit d)"

section \<open>Deduplicating and ranking the quotes\<close>

text \<open>The objects pushed onto \<open>providers\<close>.\<close>

record quote =
  provider :: jsstring
  price_value :: rat
  currency :: jsstring
  url :: "jsstring option"
  raw_text :: jsstring

text \<open>
  \<open>byProvider\<close> is a \<open>Map\<close>: it keeps its keys in the order of their first insertion,
  and setting a key that is present replaces the value where it stands. An association
  list with \<open>AList.update\<close> behaves so.
\<close>

definition providerKey :: "quote \<Rightarrow> jsstring" where
  \<comment> \<open>\<open>(p.provider || "Unknown").trim()\<close>\<close>
  "providerKey p = trim (if provider p = [] then str ''Unknown'' else provider p)"

definition keepLowest :: "(jsstring \<times> quote) list \<Rightarrow> quote \<Rightarrow> (jsstring \<times> quote) list" where
  \<comment> \<open>one turn of the loop over \<open>providers\<close>\<close>
  "keepLowest m p =
     (let key = providerKey p
      in case map_of m key of
           None \<Rightarrow> AList.update key p m
         | Some q \<Rightarrow> if price_value p < price_value q then AList.update key p m else m)"

definition byProvider :: "quote list \<Rightarrow> (jsstring \<times> quote) list" where
  "byProvider providers = foldl keepLowest [] providers"

definition pickLower :: "quote \<Rightarrow> quote \<Rightarrow> quote" where
  \<comment> \<open>the callback of \<open>reduce\<close>\<close>
  "pickLower low p = (if price_value p < price_value low then p else low)"

definition lowestOf :: "quote list \<Rightarrow> quote option" where
  "lowestOf ds = (case ds of [] \<Rightarrow> None | d0 # _ \<Rightarrow> Some (foldl pickLower d0 ds))"

text \<open>
  \<open>aggregate\<close> is the code from the comment ``Deduplicate by provider'' to the
  \<open>all_providers\<close> field of the result: the pair of the sorted array and \<open>lowest\<close>.
  \<open>lowest\<close> is computed before the array is sorted in place.
  \<open>Array.prototype.sort\<close> is stable (since ECMAScript 2019, so in every Node that
  runs this script), and its comparator \<open>a.price_value - b.price_value\<close> orders by
  amount, so it is \<open>sort_key price_value\<close>, the stable insertion sort of the library.
\<close>

definition aggregate :: "quote list \<Rightarrow> quote list \<times> quote option" where
  "aggregate providers =
     (let deduped = map snd (byProvider providers)
      in (sort_key price_value deduped, lowestOf deduped))"

text \<open>
  What the loop builds, in closed form: the keys in the order in which they are first
  seen, and for each key the first of its quotes that has the least amount
  (\<open>arg_min_list\<close> returns the first minimum of a list; lemma
  \<open>keptQuote_first_minimum\<close> below says so for \<open>keptQuote\<close>).
\<close>

definition firstSeen :: "'a list \<Rightarrow> 'a list" where
  "firstSeen xs = rev (remdups (rev xs))"

definition keptQuote :: "quote list \<Rightarrow> jsstring \<Rightarrow> quote" where
  "keptQuote qs k = arg_min_list price_value (filter (\<lambda>q. providerKey q = k) qs)"

definition keptQuotes :: "quote list \<Rightarrow> quote list" where
  "keptQuotes qs = map (keptQuote qs) (firstSeen (map providerKey qs))"

text \<open>
  The same in the words of the specification, which groups the quotes by their
  provider name, compared exactly after trimming.
\<close>

definition trimmedName :: "quote \<Rightarrow> jsstring" where
  "trimmedName q = trim (provider q)"

definition keptOfName :: "quote list \<Rightarrow> jsstring \<Rightarrow> quote" where
  "keptOfName qs name = arg_min_list price_value (filter (\<lambda>q. trimmedName q = name) qs)"

definition keptByName :: "quote list \<Rightarrow> quote list" where
  "keptByName qs = map (keptOfName qs) (firstSeen (map trimmedName qs))"

definition quoteOf :: "string \<Rightarrow> rat \<Rightarrow> quote" where
  \<comment> \<open>a quote written \<open>{provider, amount}\<close>, its other fields left empty\<close>
  "quoteOf name amount =
     \<lparr>provider = str name, price_value = amount, currency = [], url = None, raw_text = []\<rparr>"

section \<open>One run\<close>

text \<open>
  \<open>findLowestPrice\<close> drives a browser. What the browser does is given by a \<open>page\<close>:
  which of the awaited calls that stand outside every \<open>try\<close> reject, and the rows that
  the locator finds, each with the text that \<open>innerText\<close> yields (\<open>None\<close> when it
  throws) and the link that the \<open>try\<close> block around it leaves in \<open>href\<close>. The steps
  inside \<open>try\<close> blocks with empty handlers (cookie banner, filter, sort, hotel name and
  rating, price panel) cannot end the run and change nothing but the page, so they do
  not appear. The hotel fields of the result and the rendering of the two dates by
  \<open>fmtDate\<close> are left out: the result carries the time values.
  \<open>browser.close()\<close> itself is taken to succeed.
\<close>

datatype step =
    Launch | NewContext | NewPage | Goto | WaitForResults
  | OpenResult | WaitForHotel | WaitForPrices | CountRows

datatype browser_state = NotLaunched | Running | Closed

datatype run_error =
    BadDate date_error
  | Rejected step
  | NoResult jsstring

record row =
  innerText :: "jsstring option"
  href :: "jsstring option"

record page =
  rejects :: "step \<Rightarrow> bool"
  rows :: "row list"

record result =
  query_city :: jsstring
  checkin :: int
  checkout :: int
  nights :: nat
  lowest :: "quote option"
  all_providers :: "quote list"

definition scrapeRow :: "(jsstring \<Rightarrow> jsstring) \<Rightarrow> row \<Rightarrow> quote option" where
  \<comment> \<open>one turn of the loop over the rows; \<open>None\<close> is \<open>continue\<close>\<close>
  "scrapeRow lc r =
     (case innerText r of
        None \<Rightarrow> None
      | Some text \<Rightarrow>
          if text = [] then None
          else (case parseCurrencyPrice text of
                  None \<Rightarrow> None
                | Some (cur, v) \<Rightarrow>
                    Some \<lparr>provider = resolveProvider lc text, price_value = v, currency = cur,
                          url = href r, raw_text = text\<rparr>))"

definition scrape :: "(jsstring \<Rightarrow> jsstring) \<Rightarrow> row list \<Rightarrow> quote list" where
  "scrape lc rs = List.map_filter (scrapeRow lc) (take 80 rs)"

text \<open>
  The run returns what the promise settles to, and the state of the browser at that
  moment.
\<close>

definition findLowestPrice ::
  "int \<Rightarrow> (jsstring \<Rightarrow> int option) \<Rightarrow> (jsstring \<Rightarrow> jsstring) \<Rightarrow> int \<Rightarrow> page
     \<Rightarrow> jsstring \<Rightarrow> jsstring option \<Rightarrow> (run_error + result) \<times> browser_state"
where
  "findLowestPrice tz parse lc now pg city checkinStr =
     (case withinThisYearFiveNights tz parse now checkinStr of
        Inl e \<Rightarrow> (Inl (BadDate e), NotLaunched)
      | Inr (dtIn, dtOut) \<Rightarrow>
          if rejects pg Launch then (Inl (Rejected Launch), NotLaunched)
          else if rejects pg NewContext then (Inl (Rejected NewContext), Running)
          else if rejects pg NewPage then (Inl (Rejected NewPage), Running)
          else if rejects pg Goto then (Inl (Rejected Goto), Running)
          else if rejects pg WaitForResults then (Inl (Rejected WaitForResults), Running)
          else if rejects pg OpenResult then (Inl (NoResult city), Closed)
          else if rejects pg WaitForHotel then (Inl (Rejected WaitForHotel), Running)
          else if rejects pg WaitForPrices then (Inl (Rejected WaitForPrices), Running)
          else if rejects pg CountRows then (Inl (Rejected CountRows), Running)
          else (let (deduped, low) = aggregate (scrape lc (rows pg))
                in (Inr \<lparr>query_city = city, checkin = dtIn, checkout = dtOut, nights = 5,
                         lowest = low, all_providers = deduped\<rparr>,
                    Closed)))"

definition onlyGotoRejects :: "step \<Rightarrow> bool" where
  "onlyGotoRejects s \<longleftrightarrow> s = Goto"

section \<open>Facts about the calendar\<close>

lemma div_bounds:
  fixes a n :: int
  assumes "0 < n"
  shows "n * (a div n) \<le> a" "a < n * (a div n) + n"
  using assms pos_mod_bound [of n a] pos_mod_sign [of n a] mult_div_mod_eq [of n a]
  by linarith+

lemma year_guess_le: "DayFromYear (year_guess d) \<le> d"
proof -
  define n where "n = year_guess d - 1970"
  define A where "A = (n + 1) div 4"
  define B where "B = (n + 69) div 100"
  define C where "C = (n + 369) div 400"
  have dfy: "DayFromYear (year_guess d) = 365 * n + A - B + C"
    by (simp add: DayFromYear_def n_def A_def B_def C_def algebra_simps)
  have bA: "4 * A \<le> n + 1"
    using div_bounds(1) [of 4 "n + 1"] by (simp add: A_def)
  have bB: "n + 69 < 100 * B + 100"
    using div_bounds(2) [of 100 "n + 69"] by (simp add: B_def)
  have bC: "400 * C \<le> n + 369"
    using div_bounds(1) [of 400 "n + 369"] by (simp add: C_def)
  show ?thesis
  proof (cases "0 \<le> d")
    case True
    then have n: "n = d div 366"
      by (simp add: n_def year_guess_def)
    have nd: "366 * n \<le> d"
      using div_bounds(1) [of 366 d] by (simp add: n)
    have n0: "0 \<le> n"
      using True by (simp add: n pos_imp_zdiv_nonneg_iff)
    show ?thesis
    proof (cases "n \<le> 1")
      case True
      with n0 have "n = 0 \<or> n = 1" by linarith
      then have "A - B + C \<le> n"
        by (auto simp: A_def B_def C_def)
      with nd show ?thesis by (simp add: dfy)
    next
      case False
      with bA bB bC nd show ?thesis unfolding dfy by linarith
    qed
  next
    case False
    then have n: "n = d div 365 - 1"
      by (simp add: n_def year_guess_def)
    have nd: "365 * n + 365 \<le> d"
      using div_bounds(1) [of 365 d] by (simp add: n)
    have n0: "n < 0"
      using False div_bounds(2) [of 365 d] by (simp add: n)
    with bA bB bC nd show ?thesis unfolding dfy by linarith
  qed
qed

lemma year_search_spec:
  "DayFromYear y \<le> d \<Longrightarrow>
   DayFromYear (year_search y d) \<le> d \<and> d < DayFromYear (year_search y d + 1)"
proof (induction y d rule: year_search.induct)
  case (1 y d)
  show ?case
  proof (cases "DayFromYear (y + 1) \<le> d")
    case True
    with "1.IH" show ?thesis by (subst (1 2) year_search.simps) simp
  next
    case False
    with "1.prems" show ?thesis by (subst (1 2) year_search.simps) simp
  qed
qed

lemma DayFromYear_mono: "y \<le> y' \<Longrightarrow> DayFromYear y \<le> DayFromYear y'"
proof (induction y' rule: int_ge_induct)
  case base
  show ?case by simp
next
  case (step i)
  then show ?case using DayFromYear_less [of i] by linarith
qed

lemma YearFromTime_bounds:
  "DayFromYear (YearFromTime t) \<le> Day t" "Day t < DayFromYear (YearFromTime t + 1)"
  using year_search_spec [OF year_guess_le, of "Day t"] by (simp_all add: YearFromTime_def)

lemma YearFromTime_eqI:
  assumes "DayFromYear y \<le> Day t" "Day t < DayFromYear (y + 1)"
  shows "YearFromTime t = y"
proof (rule ccontr)
  assume ne: "YearFromTime t \<noteq> y"
  show False
  proof (cases "YearFromTime t < y")
    case True
    then have "DayFromYear (YearFromTime t + 1) \<le> DayFromYear y"
      by (intro DayFromYear_mono) simp
    with YearFromTime_bounds(2) [of t] assms(1) show False by linarith
  next
    case False
    with ne have "DayFromYear (y + 1) \<le> DayFromYear (YearFromTime t)"
      by (intro DayFromYear_mono) simp
    with YearFromTime_bounds(1) [of t] assms(2) show False by linarith
  qed
qed

lemma Day_bounds: "86400000 * Day t \<le> t" "t < 86400000 * Day t + 86400000"
  using div_bounds [of 86400000 t] by (simp_all add: Day_def msPerDay_def)

text \<open>A time lies in year \<open>y\<close> exactly when it is between the first instants of
  \<open>y\<close> and of \<open>y + 1\<close>.\<close>

lemma YearFromTime_iff:
  "YearFromTime t = y \<longleftrightarrow>
     86400000 * DayFromYear y \<le> t \<and> t < 86400000 * DayFromYear (y + 1)"
proof
  assume "YearFromTime t = y"
  then have "DayFromYear y \<le> Day t" "Day t < DayFromYear (y + 1)"
    using YearFromTime_bounds [of t] by simp_all
  with Day_bounds [of t] show "86400000 * DayFromYear y \<le> t \<and> t < 86400000 * DayFromYear (y + 1)"
    by linarith
next
  assume "86400000 * DayFromYear y \<le> t \<and> t < 86400000 * DayFromYear (y + 1)"
  with Day_bounds [of t] have "DayFromYear y \<le> Day t" "Day t < DayFromYear (y + 1)"
    by linarith+
  then show "YearFromTime t = y" by (rule YearFromTime_eqI)
qed

section \<open>Facts about the stay window\<close>

lemma getFullYear_iff:
  "getFullYear tz t = y \<longleftrightarrow>
     86400000 * DayFromYear y \<le> t + tz \<and> t + tz < 86400000 * DayFromYear (y + 1)"
  by (simp add: getFullYear_def LocalTime_def YearFromTime_iff)

lemma MakeDay_December:
  "MakeDay y 11 10 = DayFromYear (y + 1) - 22" "MakeDay y 11 31 = DayFromYear (y + 1) - 1"
  by (simp_all add: MakeDay_def monthStart_def DayFromYear_Suc DaysInYear_def)

lemma newDate_December:
  assumes "\<not> (0 \<le> y \<and> y \<le> 99)"
  shows "newDate tz y 11 10 = 86400000 * DayFromYear (y + 1) - 22 * 86400000 - tz"
    and "newDate tz y 11 31 = 86400000 * DayFromYear (y + 1) - 86400000 - tz"
proof -
  have yr: "(if 0 \<le> y \<and> y \<le> 99 then 1900 + y else y) = y"
    using assms by auto
  show "newDate tz y 11 10 = 86400000 * DayFromYear (y + 1) - 22 * 86400000 - tz"
    by (simp add: newDate_def yr MakeDay_December MakeDate_def MakeTime_def UTC_def msPerDay_def)
  show "newDate tz y 11 31 = 86400000 * DayFromYear (y + 1) - 86400000 - tz"
    by (simp add: newDate_def yr MakeDay_December MakeDate_def MakeTime_def UTC_def msPerDay_def)
qed

lemma fallback_fits: "newDate tz y 11 10 + 5 * msPerDay \<le> newDate tz y 11 31"
  by (simp add: newDate_def MakeDay_December MakeDate_def MakeTime_def UTC_def msPerDay_def Let_def)

lemma daysUntilMon_bounds: "0 \<le> daysUntilMon tz now" "daysUntilMon tz now \<le> 6"
  by (simp_all add: daysUntilMon_def)

lemma mondayStart_bounds:
  "now + 14 * 86400000 \<le> mondayStart tz now" "mondayStart tz now \<le> now + 20 * 86400000"
  using daysUntilMon_bounds [of tz now]
  by (simp_all add: mondayStart_def earliest_def msPerDay_def)

lemma fallback_no_shift: "usesFallback tz now \<Longrightarrow> \<not> shiftApplies tz now"
  using fallback_fits [of tz "getFullYear tz now"]
  by (simp add: shiftApplies_def pickedOut_def pickedIn_def lastDay_def)

lemma autoPick_five_nights: "snd (autoPick tz now) = fst (autoPick tz now) + 5 * msPerDay"
  by (simp add: autoPick_def pickedOut_def)

lemma autoPick_fallback:
  assumes "99 < getFullYear tz now" "usesFallback tz now"
  shows "getFullYear tz (fst (autoPick tz now)) = getFullYear tz now"
    and "getFullYear tz (snd (autoPick tz now)) = getFullYear tz now"
    and "fst (autoPick tz now) < now + 14 * msPerDay"
proof -
  define y where "y = getFullYear tz now"
  define Y0 where "Y0 = 86400000 * DayFromYear y"
  define Y1 where "Y1 = 86400000 * DayFromYear (y + 1)"
  have yr: "getFullYear tz t = y \<longleftrightarrow> Y0 \<le> t + tz \<and> t + tz < Y1" for t
    by (simp add: getFullYear_iff Y0_def Y1_def)
  have now: "Y0 \<le> now + tz" "now + tz < Y1"
    using yr [of now] by (simp_all add: y_def)
  have len: "Y0 + 31536000000 \<le> Y1"
    using DaysInYear_bounds(1) [of y] by (simp add: Y0_def Y1_def DayFromYear_Suc)
  have "\<not> (0 \<le> y \<and> y \<le> 99)"
    using assms(1) by (simp add: y_def)
  then have dec10: "newDate tz y 11 10 = Y1 - 22 * 86400000 - tz"
    by (simp add: newDate_December Y1_def)
  have ap: "autoPick tz now = (Y1 - 22 * 86400000 - tz, Y1 - 17 * 86400000 - tz)"
    using assms(2) fallback_no_shift [OF assms(2)] dec10
    by (simp add: autoPick_def pickedOut_def pickedIn_def msPerDay_def y_def)
  have "\<not> (Y0 \<le> mondayStart tz now + tz \<and> mondayStart tz now + tz < Y1)"
    using assms(2) yr [of "mondayStart tz now"] by (simp add: usesFallback_def y_def)
  with now mondayStart_bounds [where tz = tz and now = now] have late: "Y1 \<le> now + 20 * 86400000 + tz"
    by linarith
  show "getFullYear tz (fst (autoPick tz now)) = getFullYear tz now"
    using len yr [of "Y1 - 22 * 86400000 - tz"] by (simp add: ap y_def)
  show "getFullYear tz (snd (autoPick tz now)) = getFullYear tz now"
    using len yr [of "Y1 - 17 * 86400000 - tz"] by (simp add: ap y_def)
  show "fst (autoPick tz now) < now + 14 * msPerDay"
    using late by (simp add: ap msPerDay_def)
qed

lemma autoPick_monday:
  assumes "99 < getFullYear tz now" "\<not> usesFallback tz now"
  shows "getFullYear tz (fst (autoPick tz now)) = getFullYear tz now"
    and "getFullYear tz (snd (autoPick tz now)) = getFullYear tz now"
proof -
  define y where "y = getFullYear tz now"
  define Y0 where "Y0 = 86400000 * DayFromYear y"
  define Y1 where "Y1 = 86400000 * DayFromYear (y + 1)"
  define M where "M = mondayStart tz now"
  have yr: "getFullYear tz t = y \<longleftrightarrow> Y0 \<le> t + tz \<and> t + tz < Y1" for t
    by (simp add: getFullYear_iff Y0_def Y1_def)
  have len: "Y0 + 31536000000 \<le> Y1"
    using DaysInYear_bounds(1) [of y] by (simp add: Y0_def Y1_def DayFromYear_Suc)
  have "\<not> (0 \<le> y \<and> y \<le> 99)"
    using assms(1) by (simp add: y_def)
  then have last: "lastDay tz now = Y1 - 86400000 - tz"
    by (simp add: lastDay_def newDate_December Y1_def y_def [symmetric])
  have M: "Y0 \<le> M + tz" "M + tz < Y1"
    using assms(2) yr [of M] by (simp_all add: usesFallback_def y_def M_def)
  have pin: "pickedIn tz now = M" "pickedOut tz now = M + 432000000"
    using assms(2) by (simp_all add: pickedIn_def pickedOut_def M_def msPerDay_def)
  have goal: "Y0 \<le> fst (autoPick tz now) + tz \<and> snd (autoPick tz now) + tz < Y1
              \<and> snd (autoPick tz now) = fst (autoPick tz now) + 432000000"
  proof (cases "shiftApplies tz now")
    case False
    then have "M + 432000000 \<le> Y1 - 86400000 - tz"
      by (simp add: shiftApplies_def pin last)
    with M False show ?thesis
      by (simp add: autoPick_def pin)
  next
    case True
    define q where "q = (lastDay tz now - pickedOut tz now) div 86400000"
    have q: "86400000 * q \<le> Y1 - 86400000 - tz - (M + 432000000)"
            "Y1 - 86400000 - tz - (M + 432000000) < 86400000 * q + 86400000"
      using div_bounds [of 86400000 "lastDay tz now - pickedOut tz now"]
      by (simp_all add: q_def pin last)
    have ap: "autoPick tz now = (M + 86400000 * q, M + 432000000 + 86400000 * q)"
      using True by (simp add: autoPick_def shiftDays_def pin q_def msPerDay_def)
    from q len M show ?thesis
      unfolding ap fst_conv snd_conv by linarith
  qed
  then show "getFullYear tz (fst (autoPick tz now)) = getFullYear tz now"
    using yr [of "fst (autoPick tz now)"] unfolding y_def by linarith
  from goal show "getFullYear tz (snd (autoPick tz now)) = getFullYear tz now"
    using yr [of "snd (autoPick tz now)"] unfolding y_def by linarith
qed

text \<open>
  While \<open>now\<close> is at least 25 days before 00:00 on December 31, the Monday chosen and
  its check-out are inside the year: neither the fallback nor the shift is taken.
\<close>

lemma early_enough:
  assumes "99 < getFullYear tz now" "now + 25 * msPerDay \<le> lastDay tz now"
  shows "\<not> usesFallback tz now" "\<not> shiftApplies tz now"
proof -
  define y where "y = getFullYear tz now"
  define Y0 where "Y0 = 86400000 * DayFromYear y"
  define Y1 where "Y1 = 86400000 * DayFromYear (y + 1)"
  have yr: "getFullYear tz t = y \<longleftrightarrow> Y0 \<le> t + tz \<and> t + tz < Y1" for t
    by (simp add: getFullYear_iff Y0_def Y1_def)
  have now: "Y0 \<le> now + tz"
    using yr [of now] by (simp add: y_def)
  have "\<not> (0 \<le> y \<and> y \<le> 99)"
    using assms(1) by (simp add: y_def)
  then have last: "lastDay tz now = Y1 - 86400000 - tz"
    by (simp add: lastDay_def newDate_December Y1_def y_def [symmetric])
  have early: "now + 2160000000 \<le> Y1 - 86400000 - tz"
    using assms(2) by (simp add: last msPerDay_def)
  have M: "now + 14 * 86400000 \<le> mondayStart tz now" "mondayStart tz now \<le> now + 20 * 86400000"
    by (rule mondayStart_bounds)+
  have "Y0 \<le> mondayStart tz now + tz \<and> mondayStart tz now + tz < Y1"
    using now early M by linarith
  then show nf: "\<not> usesFallback tz now"
    using yr [of "mondayStart tz now"] by (simp add: usesFallback_def y_def)
  then have "pickedOut tz now = mondayStart tz now + 432000000"
    by (simp add: pickedOut_def pickedIn_def msPerDay_def)
  then show "\<not> shiftApplies tz now"
    using early M by (simp add: shiftApplies_def last)
qed

section \<open>Facts about the text functions\<close>

lemmas text_eval =
  parseCurrencyPrice_def match_at_def currency_at_def match_code_def ci_match_def
  currency_codes_def currency_symbols_def is_space_def is_digit_def is_number_char_def
  parseFloat_def digits_value_def str_def

lemmas provider_eval =
  resolveProvider_def providerName_def brandIn_def brands_def firstLine_def trim_def
  is_space_def ascii_lower_def str_def Let_def

lemma startsWith_iff: "startsWith n h \<longleftrightarrow> (\<exists>post. h = n @ post)"
  by (induction n h rule: startsWith.induct) auto

lemma includesStr_iff: "includesStr hay needle \<longleftrightarrow> (\<exists>pre post. hay = pre @ needle @ post)"
proof (induction hay)
  case Nil
  show ?case by auto
next
  case (Cons c cs)
  have "(\<exists>pre post. c # cs = pre @ needle @ post) \<longleftrightarrow>
          (\<exists>post. c # cs = needle @ post) \<or> (\<exists>pre post. cs = pre @ needle @ post)"
    (is "?L \<longleftrightarrow> ?A \<or> ?B")
  proof
    assume ?L
    then obtain pre post where eq: "c # cs = pre @ needle @ post" by blast
    show "?A \<or> ?B"
    proof (cases pre)
      case Nil
      with eq show ?thesis by auto
    next
      case (Cons a pre')
      with eq have "cs = pre' @ needle @ post" by simp
      then show ?thesis by blast
    qed
  next
    assume "?A \<or> ?B"
    then show ?L
    proof
      assume ?A
      then obtain post where "c # cs = [] @ needle @ post" by auto
      then show ?L by blast
    next
      assume ?B
      then obtain pre post where "cs = pre @ needle @ post" by blast
      then have "c # cs = (c # pre) @ needle @ post" by simp
      then show ?L by blast
    qed
  qed
  with Cons show ?case
    by (simp add: startsWith_iff del: startsWith.simps)
qed

lemma brandIn_None_iff:
  "brandIn lc text = None \<longleftrightarrow>
     (\<forall>brand \<in> set brands. \<not> (\<exists>pre post. lc text = pre @ lc brand @ post))"
  by (auto simp: brandIn_def find_None_iff includesStr_iff)

lemma code_lengths: "code \<in> set currency_codes \<Longrightarrow> length code = 3"
  by (auto simp: currency_codes_def str_def)

lemma code_not_symbol:
  assumes "code \<in> set currency_codes" "list_all2 ci_match cur code"
  shows "\<exists>c cs. cur = c # cs \<and> c \<notin> set currency_symbols"
proof -
  obtain p ps where code: "code = p # ps" and p: "p \<in> {85, 69, 71, 74, 73}"
    using assms(1) by (auto simp: currency_codes_def str_def)
  from assms(2) code obtain c cs where cur: "cur = c # cs" and "ci_match c p"
    by (auto simp: list_all2_Cons2)
  with p have "c \<notin> set currency_symbols"
    by (auto simp: ci_match_def currency_symbols_def)
  with cur show ?thesis by blast
qed

lemma currency_at_Some:
  assumes "currency_at s = Some cur"
  shows "is_currency cur \<and> (\<exists>post. s = cur @ post)"
proof (cases s)
  case Nil
  with assms show ?thesis by (simp add: currency_at_def)
next
  case (Cons c cs)
  show ?thesis
  proof (cases "c \<in> set currency_symbols")
    case True
    with assms Cons show ?thesis by (auto simp: currency_at_def is_currency_def)
  next
    case False
    with assms Cons obtain code
      where f: "find (\<lambda>code. match_code code s) currency_codes = Some code"
        and cur: "cur = take (length code) s"
      by (auto simp: currency_at_def split: option.splits)
    from f have "code \<in> set currency_codes" "match_code code s"
      by (auto simp: find_Some_iff)
    then have "is_currency cur"
      unfolding is_currency_def cur match_code_def by blast
    moreover have "s = cur @ drop (length code) s"
      by (simp add: cur)
    ultimately show ?thesis by blast
  qed
qed

lemma currency_at_complete:
  assumes "is_currency cur"
  shows "currency_at (cur @ post) = Some cur"
  using assms unfolding is_currency_def
proof
  assume "\<exists>c \<in> set currency_symbols. cur = [c]"
  then show ?thesis by (auto simp: currency_at_def)
next
  assume "\<exists>code \<in> set currency_codes. list_all2 ci_match cur code"
  then obtain code where code: "code \<in> set currency_codes" "list_all2 ci_match cur code"
    by blast
  from code_not_symbol [OF code] obtain c cs
    where cur: "cur = c # cs" and c: "c \<notin> set currency_symbols"
    by blast
  have len: "length cur = 3"
    using code code_lengths list_all2_lengthD by fastforce
  have "match_code code (cur @ post)"
    using code len by (simp add: match_code_def code_lengths)
  then have "find (\<lambda>code. match_code code (cur @ post)) currency_codes \<noteq> None"
    using code(1) by (auto simp: find_None_iff)
  then obtain code' where f: "find (\<lambda>code. match_code code (cur @ post)) currency_codes = Some code'"
    by blast
  then have "code' \<in> set currency_codes"
    by (auto simp: find_Some_iff)
  then have "take (length code') (cur @ post) = cur"
    using len by (simp add: code_lengths)
  with f c cur show ?thesis
    by (simp add: currency_at_def)
qed

lemma digit_not_space: "is_digit d \<Longrightarrow> \<not> is_space d"
  by (auto simp: is_digit_def is_space_def)

lemma match_at_iff:
  "match_at s \<noteq> None \<longleftrightarrow>
     (\<exists>cur ws d rest. s = cur @ ws @ d # rest
        \<and> is_currency cur \<and> list_all is_space ws \<and> is_digit d)"
proof
  assume "match_at s \<noteq> None"
  then obtain cur d ds
    where cur: "currency_at s = Some cur"
      and dw: "dropWhile is_space (drop (length cur) s) = d # ds"
      and d: "is_digit d"
    by (auto simp: match_at_def split: option.splits list.splits if_splits)
  from currency_at_Some [OF cur] obtain post where c: "is_currency cur" and s: "s = cur @ post"
    by blast
  have "post = takeWhile is_space post @ d # ds"
    using dw s by (metis append_eq_conv_conj takeWhile_dropWhile_id)
  moreover have "list_all is_space (takeWhile is_space post)"
    by (simp add: list_all_iff) (meson set_takeWhileD)
  ultimately show "\<exists>cur ws d rest. s = cur @ ws @ d # rest
        \<and> is_currency cur \<and> list_all is_space ws \<and> is_digit d"
    using c d s by metis
next
  assume "\<exists>cur ws d rest. s = cur @ ws @ d # rest
        \<and> is_currency cur \<and> list_all is_space ws \<and> is_digit d"
  then obtain cur ws d rest
    where s: "s = cur @ ws @ d # rest" and c: "is_currency cur"
      and ws: "list_all is_space ws" and d: "is_digit d"
    by blast
  have "dropWhile is_space (ws @ d # rest) = d # rest"
    using ws digit_not_space [OF d] by (simp add: dropWhile_append3 list_all_iff)
  then show "match_at s \<noteq> None"
    using currency_at_complete [OF c, of "ws @ d # rest"] d
    by (simp add: match_at_def s)
qed

lemma regex_match_iff:
  "regex_match s \<noteq> None \<longleftrightarrow> (\<exists>pre suf. s = pre @ suf \<and> match_at suf \<noteq> None)"
proof (induction s)
  case Nil
  show ?case by simp
next
  case (Cons c cs)
  have "(\<exists>pre suf. c # cs = pre @ suf \<and> match_at suf \<noteq> None) \<longleftrightarrow>
          match_at (c # cs) \<noteq> None \<or> (\<exists>pre suf. cs = pre @ suf \<and> match_at suf \<noteq> None)"
    (is "?L \<longleftrightarrow> ?A \<or> ?B")
  proof
    assume ?L
    then obtain pre suf where eq: "c # cs = pre @ suf" and m: "match_at suf \<noteq> None"
      by blast
    show "?A \<or> ?B"
    proof (cases pre)
      case Nil
      with eq m show ?thesis by simp
    next
      case (Cons a pre')
      with eq have "cs = pre' @ suf" by simp
      with m show ?thesis by blast
    qed
  next
    assume "?A \<or> ?B"
    then show ?L
    proof
      assume ?A
      then have "c # cs = [] @ (c # cs) \<and> match_at (c # cs) \<noteq> None" by simp
      then show ?L by blast
    next
      assume ?B
      then obtain pre suf where "cs = pre @ suf" "match_at suf \<noteq> None" by blast
      then have "c # cs = (c # pre) @ suf \<and> match_at suf \<noteq> None" by simp
      then show ?L by blast
    qed
  qed
  with Cons show ?case
    by (auto split: option.splits)
qed

lemma parse_iff_has_price: "parseCurrencyPrice text \<noteq> None \<longleftrightarrow> has_price text"
proof -
  have "parseCurrencyPrice text \<noteq> None \<longleftrightarrow> regex_match text \<noteq> None"
    by (simp add: parseCurrencyPrice_def split: option.splits)
  also have "\<dots> \<longleftrightarrow> has_price text"
    unfolding regex_match_iff match_at_iff has_price_def by metis
  finally show ?thesis .
qed

lemma match_at_slice:
  assumes "match_at s = Some (cur, tok)"
  shows "\<exists>post. s = cur @ post"
proof -
  from assms have "currency_at s = Some cur"
    by (auto simp: match_at_def split: option.splits list.splits if_splits)
  then show ?thesis
    using currency_at_Some by blast
qed

lemma regex_match_slice:
  "regex_match s = Some (cur, tok) \<Longrightarrow> \<exists>pre post. s = pre @ cur @ post"
proof (induction s)
  case Nil
  then have "match_at [] = Some (cur, tok)" by simp
  from match_at_slice [OF this] show ?case by (metis append_Nil)
next
  case (Cons c cs)
  show ?case
  proof (cases "match_at (c # cs)")
    case None
    with Cons.prems have "regex_match cs = Some (cur, tok)" by simp
    from Cons.IH [OF this] obtain pre post where "cs = pre @ cur @ post" by blast
    then have "c # cs = (c # pre) @ cur @ post" by simp
    then show ?thesis by blast
  next
    case (Some m)
    with Cons.prems have "match_at (c # cs) = Some (cur, tok)" by simp
    from match_at_slice [OF this] show ?thesis by (metis append_Nil)
  qed
qed

section \<open>Facts about the aggregation\<close>

lemma firstSeen_snoc:
  "firstSeen (xs @ [x]) = (if x \<in> set xs then firstSeen xs else firstSeen xs @ [x])"
  by (simp add: firstSeen_def)

lemma set_firstSeen [simp]: "set (firstSeen xs) = set xs"
  by (simp add: firstSeen_def)

lemma distinct_firstSeen [simp]: "distinct (firstSeen xs)"
  by (simp add: firstSeen_def)

lemma firstSeen_distinct: "distinct xs \<Longrightarrow> firstSeen xs = xs"
  by (simp add: firstSeen_def distinct_remdups_id)

lemma arg_min_list_snoc:
  fixes f :: "'a \<Rightarrow> 'b::linorder"
  shows "xs \<noteq> [] \<Longrightarrow>
         arg_min_list f (xs @ [y]) =
           (if f y < f (arg_min_list f xs) then y else arg_min_list f xs)"
proof (induction f xs rule: arg_min_list.induct)
  case (1 f x)
  then show ?case by auto
next
  case (2 f x z zs)
  then show ?case by (auto simp: Let_def)
next
  case (3 f)
  then show ?case by simp
qed

lemma foldl_pickLower: "foldl pickLower a xs = arg_min_list price_value (a # xs)"
proof (induction xs rule: rev_induct)
  case Nil
  show ?case by simp
next
  case (snoc x xs)
  have "arg_min_list price_value ((a # xs) @ [x]) =
          (if price_value x < price_value (arg_min_list price_value (a # xs)) then x
           else arg_min_list price_value (a # xs))"
    by (rule arg_min_list_snoc) simp
  with snoc show ?case by (simp add: pickLower_def)
qed

lemma hd_sort_key:
  fixes f :: "'a \<Rightarrow> 'b::linorder"
  shows "xs \<noteq> [] \<Longrightarrow> hd (sort_key f xs) = arg_min_list f xs"
proof (induction xs)
  case Nil
  then show ?case by simp
next
  case (Cons x xs)
  show ?case
  proof (cases xs)
    case Nil
    then show ?thesis by simp
  next
    case (Cons y ys)
    then have ih: "hd (sort_key f xs) = arg_min_list f xs" and ne: "sort_key f xs \<noteq> []"
      using Cons.IH by auto
    obtain s ss where s: "sort_key f xs = s # ss"
      using ne by (cases "sort_key f xs") auto
    show ?thesis
      using ih s Cons by (auto simp: Let_def)
  qed
qed

lemma lowestOf_head:
  "lowestOf ds = (case sort_key price_value ds of [] \<Rightarrow> None | q # _ \<Rightarrow> Some q)"
proof (cases ds)
  case Nil
  then show ?thesis by (simp add: lowestOf_def)
next
  case (Cons d0 rest)
  have "foldl pickLower d0 ds = arg_min_list price_value ds"
    by (simp add: Cons foldl_pickLower pickLower_def)
  moreover have "hd (sort_key price_value ds) = arg_min_list price_value ds"
    by (rule hd_sort_key) (simp add: Cons)
  moreover obtain s ss where "sort_key price_value ds = s # ss"
    using Cons by (cases "sort_key price_value ds") auto
  ultimately show ?thesis
    by (simp add: lowestOf_def Cons)
qed

lemma update_absent:
  "k \<notin> fst ` set m \<Longrightarrow> AList.update k v m = m @ [(k, v)]"
  by (induction m) auto

lemma update_present:
  "distinct ks \<Longrightarrow> k \<in> set ks \<Longrightarrow>
   AList.update k v (map (\<lambda>k'. (k', g k')) ks) =
     map (\<lambda>k'. (k', if k' = k then v else g k')) ks"
proof (induction ks)
  case Nil
  then show ?case by simp
next
  case (Cons a ks)
  show ?case
  proof (cases "a = k")
    case True
    with Cons.prems have "k \<notin> set ks" by simp
    then have "map (\<lambda>k'. (k', if k' = k then v else g k')) ks = map (\<lambda>k'. (k', g k')) ks"
      by (intro map_cong) auto
    with True show ?thesis by simp
  next
    case False
    with Cons show ?thesis by auto
  qed
qed

lemma map_of_keyed:
  "map_of (map (\<lambda>k. (k, g k)) ks) k = (if k \<in> set ks then Some (g k) else None)"
  by (induction ks) auto

lemma keptQuote_snoc:
  "keptQuote (qs @ [p]) k =
     (if k = providerKey p
      then (if providerKey p \<in> providerKey ` set qs then pickLower (keptQuote qs k) p else p)
      else keptQuote qs k)"
proof (cases "k = providerKey p")
  case False
  then show ?thesis by (simp add: keptQuote_def)
next
  case True
  show ?thesis
  proof (cases "providerKey p \<in> providerKey ` set qs")
    case False
    then have "\<forall>q\<in>set qs. providerKey q \<noteq> providerKey p"
      by (metis imageI)
    then have "filter (\<lambda>q. providerKey q = providerKey p) qs = []"
      by (simp add: filter_empty_conv)
    with True False show ?thesis by (simp add: keptQuote_def)
  next
    case in_qs: True
    then have ne: "filter (\<lambda>q. providerKey q = providerKey p) qs \<noteq> []"
      by (auto simp: filter_empty_conv)
    show ?thesis
      using True in_qs arg_min_list_snoc [OF ne, of price_value p]
      by (simp add: keptQuote_def pickLower_def)
  qed
qed

text \<open>The map built by the loop, in closed form.\<close>

lemma byProvider_eq:
  "byProvider qs = map (\<lambda>k. (k, keptQuote qs k)) (firstSeen (map providerKey qs))"
proof (induction qs rule: rev_induct)
  case Nil
  show ?case by (simp add: byProvider_def firstSeen_def)
next
  case (snoc p qs)
  define ks where "ks = firstSeen (map providerKey qs)"
  have ks: "set ks = providerKey ` set qs" "distinct ks"
    by (simp_all add: ks_def)
  have step: "byProvider (qs @ [p]) = keepLowest (map (\<lambda>k. (k, keptQuote qs k)) ks) p"
    using snoc by (simp add: byProvider_def ks_def)
  show ?case
  proof (cases "providerKey p \<in> set ks")
    case False
    then have absent: "providerKey p \<notin> fst ` set (map (\<lambda>k. (k, keptQuote qs k)) ks)"
      by (auto simp: image_iff)
    have "keepLowest (map (\<lambda>k. (k, keptQuote qs k)) ks) p
            = map (\<lambda>k. (k, keptQuote qs k)) ks @ [(providerKey p, p)]"
      using False update_absent [OF absent]
      by (simp add: keepLowest_def map_of_keyed)
    moreover have "map (\<lambda>k. (k, keptQuote (qs @ [p]) k)) ks = map (\<lambda>k. (k, keptQuote qs k)) ks"
    proof (intro map_cong refl)
      fix k assume "k \<in> set ks"
      with False have "k \<noteq> providerKey p" by blast
      then show "(k, keptQuote (qs @ [p]) k) = (k, keptQuote qs k)"
        by (simp add: keptQuote_snoc)
    qed
    ultimately show ?thesis
      using False ks(1) unfolding step
      by (simp add: firstSeen_snoc ks_def [symmetric] keptQuote_snoc)
  next
    case True
    have same_keys: "firstSeen (map providerKey (qs @ [p])) = ks"
      using True ks(1) by (simp add: firstSeen_snoc ks_def)
    have in_qs: "providerKey p \<in> providerKey ` set qs"
      using True ks(1) by simp
    have rhs: "map (\<lambda>k. (k, keptQuote (qs @ [p]) k)) ks
                 = map (\<lambda>k. (k, if k = providerKey p
                                 then pickLower (keptQuote qs (providerKey p)) p
                                 else keptQuote qs k)) ks"
      using in_qs by (intro map_cong) (auto simp: keptQuote_snoc)
    show ?thesis
    proof (cases "price_value p < price_value (keptQuote qs (providerKey p))")
      case lower: True
      have "keepLowest (map (\<lambda>k. (k, keptQuote qs k)) ks) p
              = map (\<lambda>k. (k, if k = providerKey p then p else keptQuote qs k)) ks"
        using True lower update_present [OF ks(2) True]
        by (simp add: keepLowest_def map_of_keyed)
      with lower show ?thesis
        unfolding step same_keys rhs by (simp add: pickLower_def)
    next
      case not_lower: False
      have "keepLowest (map (\<lambda>k. (k, keptQuote qs k)) ks) p = map (\<lambda>k. (k, keptQuote qs k)) ks"
        using True not_lower by (simp add: keepLowest_def map_of_keyed)
      moreover have "map (\<lambda>k. (k, if k = providerKey p
                                 then pickLower (keptQuote qs (providerKey p)) p
                                 else keptQuote qs k)) ks
                       = map (\<lambda>k. (k, keptQuote qs k)) ks"
        using not_lower by (intro map_cong) (auto simp: pickLower_def)
      ultimately show ?thesis
        unfolding step same_keys rhs by simp
    qed
  qed
qed

lemma deduped_eq: "map snd (byProvider qs) = keptQuotes qs"
  by (simp add: byProvider_eq keptQuotes_def comp_def)

lemma aggregate_eq:
  "aggregate qs =
     (sort_key price_value (keptQuotes qs),
      case sort_key price_value (keptQuotes qs) of [] \<Rightarrow> None | q # _ \<Rightarrow> Some q)"
  by (simp add: aggregate_def Let_def deduped_eq lowestOf_head)

lemma keptQuote_in:
  assumes "k \<in> providerKey ` set qs"
  shows "keptQuote qs k \<in> set qs" "providerKey (keptQuote qs k) = k"
proof -
  have ne: "filter (\<lambda>q. providerKey q = k) qs \<noteq> []"
    using assms by (auto simp: filter_empty_conv)
  have "keptQuote qs k \<in> set (filter (\<lambda>q. providerKey q = k) qs)"
    unfolding keptQuote_def by (rule arg_min_list_in [OF ne])
  then show "keptQuote qs k \<in> set qs" "providerKey (keptQuote qs k) = k"
    by simp_all
qed

lemma arg_min_list_first:
  fixes f :: "'a \<Rightarrow> 'b::linorder"
  shows "xs \<noteq> [] \<Longrightarrow>
         \<exists>ys zs. xs = ys @ arg_min_list f xs # zs
           \<and> (\<forall>y \<in> set ys. f (arg_min_list f xs) < f y)
           \<and> (\<forall>z \<in> set zs. f (arg_min_list f xs) \<le> f z)"
proof (induction f xs rule: arg_min_list.induct)
  case (1 f x)
  have "[x] = [] @ x # []" by simp
  then show ?case
    by (metis arg_min_list.simps(1) empty_iff list.set(1))
next
  case (2 f x y zs)
  define m where "m = arg_min_list f (y # zs)"
  from 2 obtain ys zs' where split: "y # zs = ys @ m # zs'"
    and before: "\<forall>a \<in> set ys. f m < f a" and after: "\<forall>z \<in> set zs'. f m \<le> f z"
    unfolding m_def by auto
  have all: "\<forall>z \<in> set (y # zs). f m \<le> f z"
    unfolding split using before after by auto
  show ?case
  proof (cases "f x \<le> f m")
    case True
    then have res: "arg_min_list f (x # y # zs) = x"
      by (simp add: m_def Let_def)
    have "x # y # zs = [] @ x # (y # zs)" by simp
    moreover have "\<forall>z \<in> set (y # zs). f x \<le> f z"
      using all True by auto
    ultimately show ?thesis
      unfolding res by (metis empty_iff list.set(1))
  next
    case False
    then have res: "arg_min_list f (x # y # zs) = m"
      by (simp add: m_def Let_def)
    have "x # y # zs = (x # ys) @ m # zs'"
      using split by simp
    moreover have "\<forall>a \<in> set (x # ys). f m < f a"
      using before False by auto
    ultimately show ?thesis
      unfolding res using after by blast
  qed
next
  case (3 f)
  then show ?case by simp
qed

text \<open>
  The quote kept for a key is the first quote of least amount among the quotes with
  that key: those before it in the list cost strictly more, those after it at least
  as much.
\<close>

lemma keptQuote_first_minimum:
  assumes "k \<in> providerKey ` set qs"
  shows "\<exists>ys zs. filter (\<lambda>q. providerKey q = k) qs = ys @ keptQuote qs k # zs
           \<and> (\<forall>y \<in> set ys. price_value (keptQuote qs k) < price_value y)
           \<and> (\<forall>z \<in> set zs. price_value (keptQuote qs k) \<le> price_value z)"
proof -
  have "filter (\<lambda>q. providerKey q = k) qs \<noteq> []"
    using assms by (auto simp: filter_empty_conv)
  then show ?thesis
    unfolding keptQuote_def by (rule arg_min_list_first)
qed

lemma keys_keptQuotes: "map providerKey (keptQuotes qs) = firstSeen (map providerKey qs)"
  unfolding keptQuotes_def map_map
  by (rule map_idI) (simp add: keptQuote_in(2))

lemma single_group:
  "distinct (map providerKey qs) \<Longrightarrow> q \<in> set qs \<Longrightarrow>
   filter (\<lambda>x. providerKey x = providerKey q) qs = [q]"
proof (induction qs)
  case Nil
  then show ?case by simp
next
  case (Cons a qs)
  show ?case
  proof (cases "q = a")
    case True
    have "filter (\<lambda>x. providerKey x = providerKey a) qs = []"
      using Cons.prems(1) by (auto simp: filter_empty_conv image_iff)
    with True show ?thesis by simp
  next
    case False
    with Cons.prems have "q \<in> set qs" "providerKey a \<noteq> providerKey q"
      by (auto simp: image_iff)
    with Cons show ?thesis by simp
  qed
qed

lemma keptQuotes_distinct:
  assumes "distinct (map providerKey qs)"
  shows "keptQuotes qs = qs"
proof -
  have "map (keptQuote qs) (map providerKey qs) = qs"
    unfolding map_map
    by (rule map_idI) (simp add: keptQuote_def single_group [OF assms])
  then show ?thesis
    by (simp add: keptQuotes_def firstSeen_distinct [OF assms])
qed

lemma distinct_keys_sort:
  "distinct (map providerKey (sort_key price_value qs)) = distinct (map providerKey qs)"
proof -
  have "mset (map providerKey (sort_key price_value qs)) = mset (map providerKey qs)"
    by simp
  then show ?thesis
    by (rule mset_eq_imp_distinct_iff)
qed

lemma aggregate_fixed:
  assumes "distinct (map providerKey qs)" "sorted (map price_value qs)"
  shows "aggregate qs = (qs, case qs of [] \<Rightarrow> None | q # _ \<Rightarrow> Some q)"
  using assms by (simp add: aggregate_eq keptQuotes_distinct sort_key_id_if_sorted)

text \<open>
  Every quote that reaches the aggregation was pushed with the field
  \<open>providerName || "Unknown"\<close>, so its provider name is not empty, and its key is its
  trimmed name.
\<close>

lemma resolveProvider_nonempty: "resolveProvider lc text \<noteq> []"
  by (simp add: resolveProvider_def str_def)

lemma scrapeRow_provider: "scrapeRow lc r = Some q \<Longrightarrow> provider q \<noteq> []"
  by (auto simp: scrapeRow_def resolveProvider_nonempty
           split: option.splits if_splits prod.splits)

lemma scrape_provider_nonempty: "q \<in> set (scrape lc rs) \<Longrightarrow> provider q \<noteq> []"
  by (auto simp: scrape_def List.map_filter_def dest: scrapeRow_provider)

lemma providerKey_named: "provider q \<noteq> [] \<Longrightarrow> providerKey q = trimmedName q"
  by (simp add: providerKey_def trimmedName_def)

lemma keptQuotes_by_name:
  assumes "\<forall>q \<in> set qs. provider q \<noteq> []"
  shows "keptQuotes qs = keptByName qs"
proof -
  have keys: "map providerKey qs = map trimmedName qs"
    using assms by (intro map_cong refl) (simp add: providerKey_named)
  have "filter (\<lambda>q. providerKey q = k) qs = filter (\<lambda>q. trimmedName q = k) qs" for k
    using assms by (intro filter_cong refl) (simp add: providerKey_named)
  then have kept: "keptQuote qs = keptOfName qs"
    by (intro ext) (simp add: keptQuote_def keptOfName_def)
  show ?thesis
    by (simp only: keptQuotes_def keptByName_def keys kept)
qed

lemma keptOfName_first_minimum:
  assumes "name \<in> trimmedName ` set qs"
  shows "\<exists>ys zs. filter (\<lambda>q. trimmedName q = name) qs = ys @ keptOfName qs name # zs
           \<and> (\<forall>y \<in> set ys. price_value (keptOfName qs name) < price_value y)
           \<and> (\<forall>z \<in> set zs. price_value (keptOfName qs name) \<le> price_value z)"
proof -
  have "filter (\<lambda>q. trimmedName q = name) qs \<noteq> []"
    using assms by (auto simp: filter_empty_conv)
  then show ?thesis
    unfolding keptOfName_def by (rule arg_min_list_first)
qed

lemmas agg_eval =
  aggregate_def byProvider_def keepLowest_def providerKey_def lowestOf_def pickLower_def
  quoteOf_def trim_def is_space_def str_def Let_def

section \<open>Claims about the stay window\<close>

text \<open>
  C2, as amended. The claim reads: for every \<open>now\<close>, the auto-pick path returns a
  check-in at least 14 days after \<open>now\<close>, with check-in and check-out inside
  \<open>now\<close>'s calendar year. The year part and the five nights hold for every \<open>now\<close>
  whose local year is 100 or later (the \<open>Date\<close> constructor reads the years 0 to 99 as
  1900 to 1999). The 14 days hold when neither the December-10 fallback nor the
  backward shift is taken, which is so at least while \<open>now\<close> is 25 days or more before
  00:00 on December 31; under the fallback the check-in is December 10 of \<open>now\<close>'s
  year, which is always less than 14 days after \<open>now\<close>.
\<close>

theorem auto_pick_window:
  assumes "99 < getFullYear tz now"
  shows "\<exists>checkIn checkOut.
           withinThisYearFiveNights tz parse now None = Inr (checkIn, checkOut)
         \<and> checkOut = checkIn + 5 * msPerDay
         \<and> getFullYear tz checkIn = getFullYear tz now
         \<and> getFullYear tz checkOut = getFullYear tz now
         \<and> (\<not> usesFallback tz now \<and> \<not> shiftApplies tz now \<longrightarrow>
              checkIn = mondayStart tz now \<and> now + 14 * msPerDay \<le> checkIn)
         \<and> (now + 25 * msPerDay \<le> lastDay tz now \<longrightarrow>
              \<not> usesFallback tz now \<and> \<not> shiftApplies tz now)
         \<and> (usesFallback tz now \<longrightarrow>
              checkIn = newDate tz (getFullYear tz now) 11 10 \<and> checkIn < now + 14 * msPerDay)"
proof -
  obtain checkIn checkOut where ap: "autoPick tz now = (checkIn, checkOut)"
    by (cases "autoPick tz now")
  have res: "withinThisYearFiveNights tz parse now None = Inr (checkIn, checkOut)"
    by (simp add: ap)
  have nights: "checkOut = checkIn + 5 * msPerDay"
    using autoPick_five_nights [of tz now] by (simp add: ap)
  have years: "getFullYear tz checkIn = getFullYear tz now \<and> getFullYear tz checkOut = getFullYear tz now"
    using autoPick_fallback(1,2) [OF assms] autoPick_monday [OF assms]
    by (cases "usesFallback tz now") (simp_all add: ap)
  have plain: "checkIn = mondayStart tz now \<and> now + 14 * msPerDay \<le> checkIn"
    if "\<not> usesFallback tz now" "\<not> shiftApplies tz now"
  proof -
    have "checkIn = mondayStart tz now"
      using that ap by (simp add: autoPick_def pickedIn_def)
    then show ?thesis
      using mondayStart_bounds(1) [of now tz] by (simp add: msPerDay_def)
  qed
  have fallback: "checkIn = newDate tz (getFullYear tz now) 11 10 \<and> checkIn < now + 14 * msPerDay"
    if "usesFallback tz now"
  proof -
    have "checkIn = newDate tz (getFullYear tz now) 11 10"
      using that fallback_no_shift [OF that] ap by (simp add: autoPick_def pickedIn_def)
    then show ?thesis
      using autoPick_fallback(3) [OF assms that] by (simp add: ap)
  qed
  from res nights years plain fallback early_enough [OF assms] show ?thesis
    by blast
qed

theorem auto_pick_window_witness:
  "99 < getFullYear 0 (MakeDate (MakeDay 2026 10 2) (MakeTime 9 0 0 0))
   \<and> \<not> usesFallback 0 (MakeDate (MakeDay 2026 10 2) (MakeTime 9 0 0 0))
   \<and> \<not> shiftApplies 0 (MakeDate (MakeDay 2026 10 2) (MakeTime 9 0 0 0))
   \<and> MakeDate (MakeDay 2026 10 2) (MakeTime 9 0 0 0) + 25 * msPerDay
       \<le> lastDay 0 (MakeDate (MakeDay 2026 10 2) (MakeTime 9 0 0 0))
   \<and> usesFallback 0 (MakeDate (MakeDay 2026 11 20) (MakeTime 12 0 0 0))
   \<and> (\<exists>checkIn checkOut.
         withinThisYearFiveNights 0 Date_parse (MakeDate (MakeDay 2026 10 2) (MakeTime 9 0 0 0)) None
           = Inr (checkIn, checkOut)
       \<and> getFullYear 0 checkIn = 2026 \<and> getFullYear 0 checkOut = 2026
       \<and> MakeDate (MakeDay 2026 10 2) (MakeTime 9 0 0 0) + 14 * msPerDay \<le> checkIn)
   \<and> (\<exists>checkIn checkOut.
         withinThisYearFiveNights 0 Date_parse (MakeDate (MakeDay 2026 11 20) (MakeTime 12 0 0 0)) None
           = Inr (checkIn, checkOut)
       \<and> checkIn < MakeDate (MakeDay 2026 11 20) (MakeTime 12 0 0 0) + 14 * msPerDay)"
proof -
  have y1: "getFullYear 0 (MakeDate (MakeDay 2026 10 2) (MakeTime 9 0 0 0)) = 2026"
    by code_simp
  have y2: "getFullYear 0 (MakeDate (MakeDay 2026 11 20) (MakeTime 12 0 0 0)) = 2026"
    by code_simp
  have f1: "\<not> usesFallback 0 (MakeDate (MakeDay 2026 10 2) (MakeTime 9 0 0 0))"
    by code_simp
  have s1: "\<not> shiftApplies 0 (MakeDate (MakeDay 2026 10 2) (MakeTime 9 0 0 0))"
    by code_simp
  have f2: "usesFallback 0 (MakeDate (MakeDay 2026 11 20) (MakeTime 12 0 0 0))"
    by code_simp
  have e1: "MakeDate (MakeDay 2026 10 2) (MakeTime 9 0 0 0) + 25 * msPerDay
              \<le> lastDay 0 (MakeDate (MakeDay 2026 10 2) (MakeTime 9 0 0 0))"
    by code_simp
  show ?thesis
    using auto_pick_window [of 0 "MakeDate (MakeDay 2026 10 2) (MakeTime 9 0 0 0)" Date_parse]
      auto_pick_window [of 0 "MakeDate (MakeDay 2026 11 20) (MakeTime 12 0 0 0)" Date_parse]
    unfolding y1 y2 using f1 s1 f2 e1 by auto
qed

text \<open>
  C2 fails as stated. At 12:00 UTC on 2026-12-20 the Monday on or after \<open>now\<close> + 14 days
  is in 2027, so the fallback returns December 10 to December 15 of 2026: a check-in
  ten days before \<open>now\<close>.
\<close>

theorem auto_pick_counterexample:
  "withinThisYearFiveNights 0 Date_parse (MakeDate (MakeDay 2026 11 20) (MakeTime 12 0 0 0)) None
     = Inr (MakeDate (MakeDay 2026 11 10) 0, MakeDate (MakeDay 2026 11 15) 0)
   \<and> MakeDate (MakeDay 2026 11 10) 0 < MakeDate (MakeDay 2026 11 20) (MakeTime 12 0 0 0)"
  by code_simp

text \<open>
  C3, as amended. The claim reads: the backward shift is triggered only when the
  check-in came from the December-10 fallback, never on the Monday path. The code does
  the opposite. After the fallback the check-out is December 15, which is not after
  December 31, so the result is December 10 to December 15 unshifted; the shift is
  taken only on the Monday path, when the Monday is so late in December that five
  nights later is past 00:00 on December 31.
\<close>

theorem shift_only_on_monday_path:
  "(shiftApplies tz now \<longrightarrow> \<not> usesFallback tz now)
   \<and> (usesFallback tz now \<longrightarrow>
        withinThisYearFiveNights tz parse now None
          = Inr (newDate tz (getFullYear tz now) 11 10,
                 newDate tz (getFullYear tz now) 11 10 + 5 * msPerDay))"
  using fallback_no_shift [of tz now]
  by (auto simp: autoPick_def pickedIn_def pickedOut_def)

theorem shift_only_on_monday_path_witness:
  "shiftApplies 19800000 (MakeDate (MakeDay 2026 11 14) (MakeTime 6 30 0 0))
   \<and> \<not> usesFallback 19800000 (MakeDate (MakeDay 2026 11 14) (MakeTime 6 30 0 0))
   \<and> usesFallback 19800000 (MakeDate (MakeDay 2026 11 20) (MakeTime 6 30 0 0))
   \<and> withinThisYearFiveNights 19800000 Date_parse
        (MakeDate (MakeDay 2026 11 20) (MakeTime 6 30 0 0)) None
      = Inr (newDate 19800000 2026 11 10, newDate 19800000 2026 11 10 + 5 * msPerDay)"
proof -
  have s: "shiftApplies 19800000 (MakeDate (MakeDay 2026 11 14) (MakeTime 6 30 0 0))"
    by code_simp
  have f: "usesFallback 19800000 (MakeDate (MakeDay 2026 11 20) (MakeTime 6 30 0 0))"
    by code_simp
  have y: "getFullYear 19800000 (MakeDate (MakeDay 2026 11 20) (MakeTime 6 30 0 0)) = 2026"
    by code_simp
  show ?thesis
    using shift_only_on_monday_path
            [of 19800000 "MakeDate (MakeDay 2026 11 14) (MakeTime 6 30 0 0)" Date_parse]
          shift_only_on_monday_path
            [of 19800000 "MakeDate (MakeDay 2026 11 20) (MakeTime 6 30 0 0)" Date_parse]
          s f
    unfolding y by blast
qed

text \<open>
  C3 fails as stated. At 12:00 UTC on Monday 2026-12-14 the check-in first chosen is
  Monday 2026-12-28, in the current year, so the fallback is not used; its check-out,
  2027-01-02, is after December 31, so the shift is applied. The run returns
  2026-12-25 to 2026-12-30.
\<close>

theorem shift_counterexample:
  "shiftApplies 0 (MakeDate (MakeDay 2026 11 14) (MakeTime 12 0 0 0))
   \<and> \<not> usesFallback 0 (MakeDate (MakeDay 2026 11 14) (MakeTime 12 0 0 0))
   \<and> withinThisYearFiveNights 0 Date_parse (MakeDate (MakeDay 2026 11 14) (MakeTime 12 0 0 0)) None
      = Inr (MakeDate (MakeDay 2026 11 25) (MakeTime 12 0 0 0),
             MakeDate (MakeDay 2026 11 30) (MakeTime 12 0 0 0))"
  by code_simp

text \<open>
  C4, as amended. The claim reads: for every supplied check-in string the function
  fails exactly when the string is not a parseable date, or the date is not strictly
  after \<open>now\<close>, or its year differs from \<open>now\<close>'s; otherwise check-out is check-in plus
  5 days, whatever year that falls in. This holds for every non-empty string. The empty
  string is not parsed at all: it is falsy, so it is handled like an absent check-in and
  the auto-pick window is returned. The last conjunct is a run whose check-out lies in
  the next year.
\<close>

theorem explicit_checkin:
  "(checkinStr \<noteq> [] \<longrightarrow>
      ((\<exists>e. withinThisYearFiveNights tz parse now (Some checkinStr) = Inl e) \<longleftrightarrow>
         (parse checkinStr = None
          \<or> (\<exists>d. parse checkinStr = Some d
                 \<and> (d \<le> now \<or> getFullYear tz d \<noteq> getFullYear tz now))))
      \<and> (\<forall>d. parse checkinStr = Some d \<and> now < d \<and> getFullYear tz d = getFullYear tz now \<longrightarrow>
            withinThisYearFiveNights tz parse now (Some checkinStr)
              = Inr (d, d + 5 * msPerDay)))
   \<and> withinThisYearFiveNights tz parse now (Some []) = withinThisYearFiveNights tz parse now None
   \<and> withinThisYearFiveNights 0 Date_parse (MakeDate (MakeDay 2026 10 2) (MakeTime 9 0 0 0))
        (Some (str ''2026-12-29''))
      = Inr (MakeDate (MakeDay 2026 11 29) 0, MakeDate (MakeDay 2027 0 3) 0)"
proof -
  have "withinThisYearFiveNights 0 Date_parse (MakeDate (MakeDay 2026 10 2) (MakeTime 9 0 0 0))
          (Some (str ''2026-12-29''))
        = Inr (MakeDate (MakeDay 2026 11 29) 0, MakeDate (MakeDay 2027 0 3) 0)"
    by code_simp
  then show ?thesis
    by (auto split: option.splits)
qed

theorem explicit_checkin_witness:
  "str ''2026-12-29'' \<noteq> []
   \<and> Date_parse (str ''2026-12-29'') = Some (MakeDate (MakeDay 2026 11 29) 0)
   \<and> MakeDate (MakeDay 2026 10 2) (MakeTime 9 0 0 0) < MakeDate (MakeDay 2026 11 29) 0
   \<and> getFullYear 0 (MakeDate (MakeDay 2026 11 29) 0)
        = getFullYear 0 (MakeDate (MakeDay 2026 10 2) (MakeTime 9 0 0 0))
   \<and> withinThisYearFiveNights 0 Date_parse (MakeDate (MakeDay 2026 10 2) (MakeTime 9 0 0 0))
        (Some (str ''2026-12-29''))
      = Inr (MakeDate (MakeDay 2026 11 29) 0, MakeDate (MakeDay 2026 11 29) 0 + 5 * msPerDay)"
proof -
  have a: "str ''2026-12-29'' \<noteq> []"
    by (simp add: str_def)
  have b: "Date_parse (str ''2026-12-29'') = Some (MakeDate (MakeDay 2026 11 29) 0)"
    by code_simp
  have c: "MakeDate (MakeDay 2026 10 2) (MakeTime 9 0 0 0) < MakeDate (MakeDay 2026 11 29) 0"
    by code_simp
  have d: "getFullYear 0 (MakeDate (MakeDay 2026 11 29) 0)
             = getFullYear 0 (MakeDate (MakeDay 2026 10 2) (MakeTime 9 0 0 0))"
    by code_simp
  show ?thesis
    using explicit_checkin
            [of "str ''2026-12-29''" 0 Date_parse "MakeDate (MakeDay 2026 10 2) (MakeTime 9 0 0 0)"]
          a b c d
    by blast
qed

text \<open>
  C4 fails as stated. The empty string is a supplied check-in that is not a parseable
  date, yet the call succeeds: at 09:00 UTC on Monday 2026-11-02 it returns the
  auto-pick window, 2026-11-16 to 2026-11-21.
\<close>

theorem explicit_checkin_counterexample:
  "Date_parse [] = None
   \<and> withinThisYearFiveNights 0 Date_parse (MakeDate (MakeDay 2026 10 2) (MakeTime 9 0 0 0)) (Some [])
      = Inr (MakeDate (MakeDay 2026 10 16) (MakeTime 9 0 0 0),
             MakeDate (MakeDay 2026 10 21) (MakeTime 9 0 0 0))"
  by code_simp

section \<open>Claims about the price parser and the provider name\<close>

text \<open>
  C5, as amended. The claim reads: \<open>parsePrice\<close> never raises, it returns a pair or
  none, and a malformed number such as one with several decimal points gives none.
  The function has no failing branch, and it returns none exactly when the text has
  no currency followed, after optional white space, by a digit. But nothing inspects
  the shape of the number: \<open>parseFloat\<close> reads the longest leading decimal of the
  token, so \<open>$1.2.3\<close> yields 1.2 (that is, 6/5).
\<close>

theorem parse_price_total:
  "(parseCurrencyPrice text = None \<longleftrightarrow> \<not> has_price text)
   \<and> parseCurrencyPrice (str ''$1.2.3'') = Some (str ''$'', 6 / 5)"
proof -
  have "parseCurrencyPrice (str ''$1.2.3'') = Some (str ''$'', 6 / 5)"
    by (simp add: text_eval)
  then show ?thesis
    using parse_iff_has_price [of "text"] by blast
qed

text \<open>
  C5 fails as stated: the token \<open>1.2.3\<close> has two decimal points, and the result is
  not none.
\<close>

theorem parse_price_counterexample:
  "parseCurrencyPrice (str ''$1.2.3'') \<noteq> None"
  by (simp add: text_eval)

text \<open>
  C9. \<open>parsePrice\<close> on \<open>Booking.com R12,345 per night\<close>, where \<open>R\<close> stands for the
  rupee sign (code unit 8377), returns the rupee sign and 12345; on
  \<open>no price here\<close> it returns none.
\<close>

theorem parse_price_examples:
  "parseCurrencyPrice (str ''Booking.com '' @ [8377] @ str ''12,345 per night'')
     = Some ([8377], 12345)
   \<and> parseCurrencyPrice (str ''no price here'') = None"
  by (simp add: text_eval)

text \<open>
  C10. The codes are matched in either case and the currency returned is the matched
  text itself: a slice of the input, so \<open>usd 100\<close> gives \<open>usd\<close>, not \<open>USD\<close> and
  not none.
\<close>

theorem parse_price_verbatim:
  "parseCurrencyPrice (str ''usd 100'') = Some (str ''usd'', 100)
   \<and> str ''usd'' \<noteq> str ''USD''
   \<and> (\<forall>cur v. parseCurrencyPrice text = Some (cur, v) \<longrightarrow>
         (\<exists>pre post. text = pre @ cur @ post))"
proof -
  have a: "parseCurrencyPrice (str ''usd 100'') = Some (str ''usd'', 100)"
    by (simp add: text_eval)
  have b: "str ''usd'' \<noteq> str ''USD''"
    by (simp add: str_def)
  have c: "\<exists>pre post. text = pre @ cur @ post" if "parseCurrencyPrice text = Some (cur, v)" for cur v
  proof -
    from that obtain tok where "regex_match text = Some (cur, tok)"
      by (auto simp: parseCurrencyPrice_def split: option.splits)
    then show ?thesis by (rule regex_match_slice)
  qed
  from a b c show ?thesis by blast
qed

theorem parse_price_verbatim_witness:
  "parseCurrencyPrice (str ''Pay Inr 2,500.75 now'') = Some (str ''Inr'', 10003 / 4)
   \<and> (\<exists>pre post. str ''Pay Inr 2,500.75 now'' = pre @ str ''Inr'' @ post)"
proof -
  have "parseCurrencyPrice (str ''Pay Inr 2,500.75 now'') = Some (str ''Inr'', 10003 / 4)"
    by (simp add: text_eval)
  then show ?thesis
    using parse_price_verbatim [of "str ''Pay Inr 2,500.75 now''"] by blast
qed

text \<open>
  C6, as amended. The claim reads: when the first line, trimmed, is rejected (empty,
  or longer than 60 units) and the text mentions no brand, the provider is
  \<open>Unknown\<close>. That holds for an empty first line. A first line longer than 60 units
  only sends the code to the brand list; when no brand is found the long line is kept
  as the provider name. ``Mentions no brand'' is \<open>brandIn lc text = None\<close>, which by
  \<open>brandIn_None_iff\<close> says that no brand, lower-cased, is a substring of the
  lower-cased text.
\<close>

theorem provider_when_rejected:
  assumes "brandIn lc text = None"
  shows "(trim (firstLine text) = [] \<longrightarrow> resolveProvider lc text = str ''Unknown'')
         \<and> (60 < length (trim (firstLine text)) \<longrightarrow>
              resolveProvider lc text = trim (firstLine text))"
  using assms by (auto simp: resolveProvider_def providerName_def Let_def)

theorem provider_when_rejected_witness:
  "brandIn ascii_lower ([10] @ str ''from $5'') = None
   \<and> trim (firstLine ([10] @ str ''from $5'')) = []
   \<and> resolveProvider ascii_lower ([10] @ str ''from $5'') = str ''Unknown''
   \<and> brandIn ascii_lower longRow = None
   \<and> 60 < length (trim (firstLine longRow))
   \<and> resolveProvider ascii_lower longRow = trim (firstLine longRow)"
proof -
  have a: "brandIn ascii_lower ([10] @ str ''from $5'') = None"
    by (simp add: provider_eval)
  have b: "trim (firstLine ([10] @ str ''from $5'')) = []"
    by (simp add: provider_eval)
  have c: "brandIn ascii_lower longRow = None"
    by (simp add: longRow_def brandIn_def brands_def ascii_lower_def str_def)
  have d: "60 < length (trim (firstLine longRow))"
    by (simp add: longRow_def firstLine_def trim_def is_space_def str_def)
  show ?thesis
    using provider_when_rejected [OF a] provider_when_rejected [OF c] a b c d
    by blast
qed

text \<open>
  C6 fails as stated. \<open>longRow\<close> is one line of 69 units that names no brand and
  carries a price; it is rejected by the first test, and the provider stored for it is
  the line itself.
\<close>

theorem provider_counterexample:
  "60 < length (trim (firstLine longRow))
   \<and> brandIn ascii_lower longRow = None
   \<and> resolveProvider ascii_lower longRow = longRow
   \<and> longRow \<noteq> str ''Unknown''"
proof -
  have line: "trim (firstLine longRow) = longRow"
    by (simp add: longRow_def firstLine_def trim_def is_space_def str_def)
  have len: "length longRow = 69"
    by (simp add: longRow_def str_def)
  have none: "brandIn ascii_lower longRow = None"
    by (simp add: longRow_def brandIn_def brands_def ascii_lower_def str_def)
  have ne: "longRow \<noteq> []"
    using len by auto
  have "longRow \<noteq> str ''Unknown''"
  proof
    assume "longRow = str ''Unknown''"
    then have "length longRow = length (str ''Unknown'')" by (rule arg_cong)
    with len show False by (simp add: str_def)
  qed
  with ne show ?thesis
    by (simp add: resolveProvider_def providerName_def Let_def line len none)
qed

section \<open>Claims about the aggregation\<close>

text \<open>
  C1. For every list of quotes that the run hands to the aggregation, the quotes are
  grouped by provider name, compared exactly after trimming; each group keeps its
  quote of least amount, the first seen winning a tie (\<open>keptOfName\<close>, see
  \<open>keptOfName_first_minimum\<close>); \<open>deduped\<close> is the stable ascending sort by amount
  of the kept quotes, which enter the sort in the order in which their providers were
  first seen; \<open>lowest\<close> is the first element of \<open>deduped\<close>, or none when it is empty.
  The lists handed over are those built by the loop over the rows, and every quote in
  them has a non-empty provider name: that is the first conjunct, and the premise of the
  second. The last two conjuncts are the examples of the claim.
\<close>

theorem aggregate_groups:
  "(\<forall>q \<in> set (scrape lc rs). provider q \<noteq> [])
   \<and> ((\<forall>q \<in> set qs. provider q \<noteq> []) \<longrightarrow>
        fst (aggregate qs) = sort_key price_value (keptByName qs))
   \<and> snd (aggregate qs) = (case fst (aggregate qs) of [] \<Rightarrow> None | q # _ \<Rightarrow> Some q)
   \<and> aggregate [quoteOf ''A'' 100, quoteOf ''B'' 90, quoteOf ''A'' 80]
       = ([quoteOf ''A'' 80, quoteOf ''B'' 90], Some (quoteOf ''A'' 80))
   \<and> aggregate [] = ([], None)"
proof -
  have ex: "aggregate [quoteOf ''A'' 100, quoteOf ''B'' 90, quoteOf ''A'' 80]
              = ([quoteOf ''A'' 80, quoteOf ''B'' 90], Some (quoteOf ''A'' 80))"
    by (simp add: agg_eval)
  have empty: "aggregate [] = ([], None)"
    by (simp add: agg_eval)
  have reach: "\<forall>q \<in> set (scrape lc rs). provider q \<noteq> []"
    using scrape_provider_nonempty by blast
  have groups: "fst (aggregate qs) = sort_key price_value (keptByName qs)"
    if "\<forall>q \<in> set qs. provider q \<noteq> []"
    using keptQuotes_by_name [OF that] by (simp add: aggregate_eq)
  have low: "snd (aggregate qs) = (case fst (aggregate qs) of [] \<Rightarrow> None | q # _ \<Rightarrow> Some q)"
    by (simp add: aggregate_eq)
  from ex empty reach groups low show ?thesis
    by blast
qed

theorem aggregate_groups_witness:
  "map provider
     (scrape ascii_lower
        [\<lparr>innerText = Some (str ''Agoda'' @ [10] @ str ''$80''), href = None\<rparr>,
         \<lparr>innerText = Some ([10] @ str ''from $5''), href = None\<rparr>])
     = [str ''Agoda'', str ''Unknown'']
   \<and> provider (quoteOf ''A'' 100) \<noteq> []
   \<and> provider (quoteOf ''B'' 90) \<noteq> []
   \<and> provider (quoteOf ''A'' 80) \<noteq> []
   \<and> fst (aggregate [quoteOf ''A'' 100, quoteOf ''B'' 90, quoteOf ''A'' 80])
       = sort_key price_value (keptByName [quoteOf ''A'' 100, quoteOf ''B'' 90, quoteOf ''A'' 80])
   \<and> sort_key price_value (keptByName [quoteOf ''A'' 100, quoteOf ''B'' 90, quoteOf ''A'' 80])
       = [quoteOf ''A'' 80, quoteOf ''B'' 90]"
proof -
  have rows: "map provider
     (scrape ascii_lower
        [\<lparr>innerText = Some (str ''Agoda'' @ [10] @ str ''$80''), href = None\<rparr>,
         \<lparr>innerText = Some ([10] @ str ''from $5''), href = None\<rparr>])
     = [str ''Agoda'', str ''Unknown'']"
    by (simp add: scrape_def List.map_filter_def scrapeRow_def text_eval resolveProvider_def
          providerName_def brandIn_def brands_def firstLine_def trim_def ascii_lower_def Let_def)
  have names: "provider (quoteOf ''A'' 100) \<noteq> []" "provider (quoteOf ''B'' 90) \<noteq> []"
    "provider (quoteOf ''A'' 80) \<noteq> []"
    by (simp_all add: quoteOf_def str_def)
  have all: "\<forall>q \<in> set [quoteOf ''A'' 100, quoteOf ''B'' 90, quoteOf ''A'' 80]. provider q \<noteq> []"
    using names by simp
  have grp: "fst (aggregate [quoteOf ''A'' 100, quoteOf ''B'' 90, quoteOf ''A'' 80])
               = sort_key price_value (keptByName [quoteOf ''A'' 100, quoteOf ''B'' 90, quoteOf ''A'' 80])"
    and ex: "aggregate [quoteOf ''A'' 100, quoteOf ''B'' 90, quoteOf ''A'' 80]
               = ([quoteOf ''A'' 80, quoteOf ''B'' 90], Some (quoteOf ''A'' 80))"
    using aggregate_groups
            [of ascii_lower "[]" "[quoteOf ''A'' 100, quoteOf ''B'' 90, quoteOf ''A'' 80]"] all
    by blast+
  from grp ex have "sort_key price_value (keptByName [quoteOf ''A'' 100, quoteOf ''B'' 90, quoteOf ''A'' 80])
               = [quoteOf ''A'' 80, quoteOf ''B'' 90]"
    by simp
  with rows names grp show ?thesis
    by blast
qed

text \<open>
  C7. Aggregating the deduplicated, sorted output again changes nothing: the result,
  sorted list and lowest quote, is the one the first aggregation gave.
\<close>

theorem aggregate_idempotent:
  "aggregate (fst (aggregate qs)) = aggregate qs"
proof -
  define out where "out = sort_key price_value (keptQuotes qs)"
  have "distinct (map providerKey out)"
    by (simp add: out_def distinct_keys_sort keys_keptQuotes)
  moreover have "sorted (map price_value out)"
    by (simp add: out_def)
  ultimately have "aggregate out = (out, case out of [] \<Rightarrow> None | q # _ \<Rightarrow> Some q)"
    by (rule aggregate_fixed)
  then show ?thesis
    by (simp add: aggregate_eq out_def)
qed

section \<open>Claim about releasing the browser\<close>

text \<open>
  Once the browser is launched, a run leaves it closed exactly on two paths: the
  rejection of the click that opens a result, and the normal return.
\<close>

lemma browser_closed_iff:
  assumes "withinThisYearFiveNights tz parse now checkinStr = Inr w" "\<not> rejects pg Launch"
  shows "snd (findLowestPrice tz parse lc now pg city checkinStr) = Closed \<longleftrightarrow>
           \<not> rejects pg NewContext \<and> \<not> rejects pg NewPage \<and> \<not> rejects pg Goto
           \<and> \<not> rejects pg WaitForResults
           \<and> (rejects pg OpenResult
               \<or> \<not> rejects pg WaitForHotel \<and> \<not> rejects pg WaitForPrices
                 \<and> \<not> rejects pg CountRows)"
  using assms by (cases w) (auto simp: findLowestPrice_def split: prod.splits)

text \<open>
  C8. The claim reads: on every exit path after the browser has been launched, the
  browser is closed before the path exits. The code closes it on two paths only:
  before returning the result, and in the handler around the click that opens a
  result. When \<open>page.goto\<close> rejects (a navigation time-out, say), the rejection leaves
  \<open>findLowestPrice\<close> with the browser still running. The run below is on Monday
  2026-11-02, 09:00 UTC, with no check-in given, an empty page and \<open>goto\<close> the only
  call that rejects.
\<close>

theorem goto_failure_leaves_browser_running:
  "findLowestPrice 0 Date_parse ascii_lower (MakeDate (MakeDay 2026 10 2) (MakeTime 9 0 0 0))
     \<lparr>rejects = onlyGotoRejects, rows = []\<rparr> (str ''Mumbai'') None
   = (Inl (Rejected Goto), Running)"
  by (simp add: findLowestPrice_def onlyGotoRejects_def split: prod.splits)

end
